theory Spec2Isabelle
  imports Main
begin

section \<open>Text, bytes and Python values\<close>

text \<open>
  A Python \<open>str\<close> is a sequence of Unicode code points, modelled as a list of naturals;
  a \<open>bytes\<close> object is a list of 8-bit characters. \<open>lit\<close> turns an ASCII literal into
  a Python string.
\<close>

type_synonym pystr = "nat list"
type_synonym bytes = "char list"

definition lit :: "string \<Rightarrow> pystr" where
  "lit s = map of_char s"

abbreviation (input) TAB :: nat where "TAB \<equiv> 9"
abbreviation (input) LF :: nat where "LF \<equiv> 10"
abbreviation (input) CR :: nat where "CR \<equiv> 13"
abbreviation (input) SP :: nat where "SP \<equiv> 32"

text \<open>
  A float is finite, an infinity or a NaN. A finite float is named by the text
  \<open>repr\<close> prints for it, the shortest decimal text that reads back as the same float:
  \<open>1.0\<close>, \<open>-0.0\<close>, \<open>1e+16\<close>, \<open>1.5e-07\<close>. Both \<open>str\<close> and \<open>json.dumps\<close>
  write a finite float as that text.
\<close>

datatype pyfloat = Finite pystr | PosInf | NegInf | NaN

text \<open>
  The values \<open>create_file\<close> may be handed as content. Dictionaries keep their
  insertion order and have string keys; \<open>PObject\<close> stands for a value of any other type
  (a set, an instance of a class), which neither the sanitizer nor the JSON encoder
  accepts.
\<close>

datatype pyval =
    PNone
  | PBool bool
  | PInt int
  | PFloat pyfloat
  | PStr pystr
  | PBytes bytes
  | PList "pyval list"
  | PTuple "pyval list"
  | PDict "(pystr \<times> pyval) list"
  | PObject

subsection \<open>\<open>str()\<close> of the scalar types\<close>

function str_nat :: "nat \<Rightarrow> pystr" where
  "str_nat n = (if n < 10 then [48 + n] else str_nat (n div 10) @ [48 + n mod 10])"
  by pat_completeness auto
termination
  by (relation "measure id") auto

declare str_nat.simps [simp del]

definition decimal :: "int \<Rightarrow> pystr" where
  "decimal i = (if i < 0 then 45 # str_nat (nat (- i)) else str_nat (nat i))"

text \<open>
  CPython refuses to convert an integer of more than 4300 digits (the default of
  \<open>sys.set_int_max_str_digits\<close>; the sign does not count) to a decimal text: \<open>str\<close>
  and \<open>repr\<close> raise \<open>ValueError\<close>, here \<open>None\<close>.
\<close>

definition int_max_str_digits :: nat where
  "int_max_str_digits = 4300"

definition str_int :: "int \<Rightarrow> pystr option" where
  "str_int i =
     (if int_max_str_digits < length (str_nat (nat \<bar>i\<bar>)) then None else Some (decimal i))"

fun str_float :: "pyfloat \<Rightarrow> pystr" where
  "str_float (Finite r) = r"
| "str_float PosInf = lit ''inf''"
| "str_float NegInf = lit ''-inf''"
| "str_float NaN = lit ''nan''"

definition str_bool :: "bool \<Rightarrow> pystr" where
  "str_bool b = (if b then lit ''True'' else lit ''False'')"

subsection \<open>\<open>bytes.decode('utf-8')\<close>\<close>

definition cont :: "char \<Rightarrow> bool" where
  "cont b \<longleftrightarrow> (0x80::nat) \<le> of_char b \<and> of_char b \<le> (0xBF::nat)"

definition cont_val :: "char \<Rightarrow> nat" where
  "cont_val b = of_char b - 0x80"

text \<open>
  One code point from the front of a byte sequence, with the rest; \<open>None\<close> where the
  strict decoder raises \<open>UnicodeDecodeError\<close> (a stray continuation byte, a truncated or
  overlong sequence, a surrogate, a value above U+10FFFF).
\<close>

fun utf8_next :: "bytes \<Rightarrow> (nat \<times> bytes) option" where
  "utf8_next [] = None"
| "utf8_next (b # bs) =
     (let n = (of_char b :: nat) in
      if n < 0x80 then Some (n, bs)
      else if 0xC2 \<le> n \<and> n \<le> 0xDF then
        (case bs of
           b1 # r \<Rightarrow>
             if cont b1 then Some ((n - 0xC0) * 64 + cont_val b1, r) else None
         | _ \<Rightarrow> None)
      else if 0xE0 \<le> n \<and> n \<le> 0xEF then
        (case bs of
           b1 # b2 # r \<Rightarrow>
             if cont b1 \<and> cont b2
                \<and> (n = 0xE0 \<longrightarrow> (0xA0::nat) \<le> of_char b1)
                \<and> (n = 0xED \<longrightarrow> of_char b1 \<le> (0x9F::nat))
             then Some ((n - 0xE0) * 4096 + cont_val b1 * 64 + cont_val b2, r)
             else None
         | _ \<Rightarrow> None)
      else if 0xF0 \<le> n \<and> n \<le> 0xF4 then
        (case bs of
           b1 # b2 # b3 # r \<Rightarrow>
             if cont b1 \<and> cont b2 \<and> cont b3
                \<and> (n = 0xF0 \<longrightarrow> (0x90::nat) \<le> of_char b1)
                \<and> (n = 0xF4 \<longrightarrow> of_char b1 \<le> (0x8F::nat))
             then Some ((n - 0xF0) * 262144 + cont_val b1 * 4096
                        + cont_val b2 * 64 + cont_val b3, r)
             else None
         | _ \<Rightarrow> None)
      else None)"

function utf8_decode :: "bytes \<Rightarrow> pystr option" where
  "utf8_decode bs =
     (if bs = [] then Some []
      else case utf8_next bs of
             None \<Rightarrow> None
           | Some (c, r) \<Rightarrow> map_option ((#) c) (utf8_decode r))"
  by pat_completeness auto
termination
proof (relation "measure length")
  show "wf (measure length)" by simp
next
  fix bs :: bytes and x c r
  assume "bs \<noteq> []" and "utf8_next bs = Some x" and "(c, r) = x"
  then have "utf8_next bs = Some (c, r)" by simp
  then have "length r < length bs"
    by (cases bs) (auto simp: Let_def split: if_splits list.splits)
  then show "(r, bs) \<in> measure length" by simp
qed

declare utf8_decode.simps [simp del]

subsection \<open>\<open>json.dumps(content, ensure_ascii=False, indent=...)\<close>\<close>

definition hex_digit :: "nat \<Rightarrow> nat" where
  "hex_digit d = (if d < 10 then 48 + d else 87 + d)"

text \<open>
  The encoder escapes the quote (34), the backslash (92) and the control characters
  below U+0020: a backslash followed by a quote, a backslash, \<open>n\<close>, \<open>r\<close>, \<open>t\<close>,
  \<open>b\<close>, \<open>f\<close>, or \<open>u00\<close> and two lower-case hexadecimal digits. With
  \<open>ensure_ascii=False\<close> every other code point is written as it is.
\<close>

definition json_escape_char :: "nat \<Rightarrow> pystr" where
  "json_escape_char c =
     (if c = 34 then [92, 34]
      else if c = 92 then [92, 92]
      else if c = 10 then [92, 110]
      else if c = 13 then [92, 114]
      else if c = 9 then [92, 116]
      else if c = 8 then [92, 98]
      else if c = 12 then [92, 102]
      else if c < 32 then [92, 117, 48, 48, hex_digit (c div 16), hex_digit (c mod 16)]
      else [c])"

definition json_string :: "pystr \<Rightarrow> pystr" where
  "json_string s = 34 # concat (map json_escape_char s) @ [34]"

text \<open>
  \<open>indent=None\<close> joins items with \<open>", "\<close> on one line; \<open>indent=n\<close> joins them with
  \<open>","\<close> and puts each on a line of its own, indented by \<open>n\<close> spaces per nesting
  level. The key separator is \<open>": "\<close> in both cases.
\<close>

definition item_separator :: "nat option \<Rightarrow> nat \<Rightarrow> pystr" where
  "item_separator ind lvl =
     (case ind of None \<Rightarrow> lit '', '' | Some n \<Rightarrow> 44 # LF # replicate (n * lvl) SP)"

definition newline_indent :: "nat option \<Rightarrow> nat \<Rightarrow> pystr" where
  "newline_indent ind lvl =
     (case ind of None \<Rightarrow> [] | Some n \<Rightarrow> LF # replicate (n * lvl) SP)"

text \<open>What the encoder writes for a float (\<open>allow_nan\<close> is left at its default).\<close>

fun json_float :: "pyfloat \<Rightarrow> pystr" where
  "json_float (Finite r) = r"
| "json_float PosInf = lit ''Infinity''"
| "json_float NegInf = lit ''-Infinity''"
| "json_float NaN = lit ''NaN''"

text \<open>
  The encoder fails (\<open>None\<close>) with \<open>TypeError\<close> on a value that is not JSON
  serializable, with \<open>ValueError\<close> on an integer of more than 4300 digits, and with
  \<open>RecursionError\<close> when the containers are nested deeper than the interpreter's stack
  has room for. How deep that is depends on the recursion limit and on the depth of the
  stack at the call, so it is an argument: \<open>room\<close> is the number of containers, one
  inside the other, that the call can still enter; the encoder enters one for every
  list, tuple and dictionary, empty or not. A tuple is written as a list is.
\<close>

fun json_encode :: "nat \<Rightarrow> nat option \<Rightarrow> nat \<Rightarrow> pyval \<Rightarrow> pystr option"
  and json_items :: "nat \<Rightarrow> nat option \<Rightarrow> nat \<Rightarrow> pyval list \<Rightarrow> pystr option"
  and json_members :: "nat \<Rightarrow> nat option \<Rightarrow> nat \<Rightarrow> (pystr \<times> pyval) list \<Rightarrow> pystr option"
where
  "json_encode room ind lvl PNone = Some (lit ''null'')"
| "json_encode room ind lvl (PBool b) = Some (if b then lit ''true'' else lit ''false'')"
| "json_encode room ind lvl (PInt i) = str_int i"
| "json_encode room ind lvl (PFloat f) = Some (json_float f)"
| "json_encode room ind lvl (PStr s) = Some (json_string s)"
| "json_encode room ind lvl (PBytes b) = None"
| "json_encode room ind lvl PObject = None"
| "json_encode room ind lvl (PList vs) =
     (if room \<le> lvl then None
      else if vs = [] then Some (lit ''[]'')
      else
        (case json_items room ind (Suc lvl) vs of
           None \<Rightarrow> None
         | Some body \<Rightarrow>
             Some (91 # newline_indent ind (Suc lvl) @ body @ newline_indent ind lvl @ [93])))"
| "json_encode room ind lvl (PTuple vs) =
     (if room \<le> lvl then None
      else if vs = [] then Some (lit ''[]'')
      else
        (case json_items room ind (Suc lvl) vs of
           None \<Rightarrow> None
         | Some body \<Rightarrow>
             Some (91 # newline_indent ind (Suc lvl) @ body @ newline_indent ind lvl @ [93])))"
| "json_encode room ind lvl (PDict kvs) =
     (if room \<le> lvl then None
      else if kvs = [] then Some (lit ''{}'')
      else
        (case json_members room ind (Suc lvl) kvs of
           None \<Rightarrow> None
         | Some body \<Rightarrow>
             Some (123 # newline_indent ind (Suc lvl) @ body @ newline_indent ind lvl @ [125])))"
| "json_items room ind lvl [] = Some []"
| "json_items room ind lvl [v] = json_encode room ind lvl v"
| "json_items room ind lvl (v # w # vs) =
     (case json_encode room ind lvl v of
        None \<Rightarrow> None
      | Some a \<Rightarrow>
          (case json_items room ind lvl (w # vs) of
             None \<Rightarrow> None
           | Some b \<Rightarrow> Some (a @ item_separator ind lvl @ b)))"
| "json_members room ind lvl [] = Some []"
| "json_members room ind lvl [(k, v)] =
     (case json_encode room ind lvl v of
        None \<Rightarrow> None
      | Some a \<Rightarrow> Some (json_string k @ lit '': '' @ a))"
| "json_members room ind lvl ((k, v) # m # kvs) =
     (case json_encode room ind lvl v of
        None \<Rightarrow> None
      | Some a \<Rightarrow>
          (case json_members room ind lvl (m # kvs) of
             None \<Rightarrow> None
           | Some b \<Rightarrow> Some (json_string k @ lit '': '' @ a @ item_separator ind lvl @ b)))"

definition json_dumps :: "nat \<Rightarrow> nat option \<Rightarrow> pyval \<Rightarrow> pystr option" where
  "json_dumps room ind v = json_encode room ind 0 v"

section \<open>Exceptions\<close>

text \<open>
  A resolved path is the list of its segments below the root. Every
  \<open>PathValidationError\<close> of the source carries the path and a message; \<open>reason\<close> names
  the messages by the kind of failure they report.
\<close>

type_synonym path = "string list"

datatype reason =
    NotFound
  | WrongKind
  | HiddenRejected
  | NotReadable
  | NotWritable
  | AlreadyExists
  | PermissionDenied
  | IsADirectory
  | DirectoryCreateFailed
  | UnexpectedFailure

datatype type_error =
    JsonConversionFailed
  | BytesNotUtf8
  | UnsupportedType
  | WrongArgumentCount

text \<open>
  The two \<open>ValueError\<close>s that are not encoding errors: the sanitizer's own, for a
  content that is empty in the end, and the one \<open>str\<close> raises for an integer of more
  than 4300 digits.
\<close>

datatype value_error =
    EmptyContent
  | IntegerTooLong

datatype exc =
    PathValidationError path reason
  | TypeError type_error
  | ValueError value_error
  | FileNotFoundError
  | FileExistsError
  | IsADirectoryError
  | NotADirectoryError
  | PermissionError
  | UnicodeDecodeError
  | UnicodeEncodeError
  | LookupError

section \<open>Content sanitization (\<open>utils._sanitize_content\<close>)\<close>

subsection \<open>The regular expressions and string methods it uses\<close>

text \<open>\<open>re.sub(r'[^\x20-\x7E\t\n]', '', s)\<close>: every character outside the class is deleted.\<close>

definition printable :: "nat \<Rightarrow> bool" where
  "printable c \<longleftrightarrow> (32 \<le> c \<and> c \<le> 126) \<or> c = TAB \<or> c = LF"

definition strip_unprintable :: "pystr \<Rightarrow> pystr" where
  "strip_unprintable s = filter printable s"

text \<open>\<open>s.replace('\r\n', '\n')\<close> and \<open>s.replace('\r', '\n')\<close>, left to right.\<close>

fun replace_crlf :: "pystr \<Rightarrow> pystr" where
  "replace_crlf (a # b # cs) =
     (if a = CR \<and> b = LF then LF # replace_crlf cs else a # replace_crlf (b # cs))"
| "replace_crlf cs = cs"

definition replace_cr :: "pystr \<Rightarrow> pystr" where
  "replace_cr s = map (\<lambda>c. if c = CR then LF else c) s"

text \<open>
  \<open>re.sub(r'\n{2,}', '\n', s)\<close>: a maximal run of newlines becomes one newline (a single
  newline is no match and is copied).
\<close>

function collapse_newlines :: "pystr \<Rightarrow> pystr" where
  "collapse_newlines [] = []"
| "collapse_newlines (c # cs) =
     (if c = LF then LF # collapse_newlines (dropWhile (\<lambda>x. x = LF) cs)
      else c # collapse_newlines cs)"
  by pat_completeness auto
termination
  by (relation "measure length") (auto simp: length_dropWhile_le less_Suc_eq_le)

text \<open>\<open>re.sub(r'[ \t]+', ' ', s)\<close>: a maximal run of spaces and tabs becomes one space.\<close>

definition blank :: "nat \<Rightarrow> bool" where
  "blank c \<longleftrightarrow> c = SP \<or> c = TAB"

function collapse_blanks :: "pystr \<Rightarrow> pystr" where
  "collapse_blanks [] = []"
| "collapse_blanks (c # cs) =
     (if blank c then SP # collapse_blanks (dropWhile blank cs)
      else c # collapse_blanks cs)"
  by pat_completeness auto
termination
  by (relation "measure length") (auto simp: length_dropWhile_le less_Suc_eq_le)

text \<open>
  \<open>s.strip()\<close> removes the characters for which \<open>str.isspace\<close> holds from both ends.
\<close>

definition is_space :: "nat \<Rightarrow> bool" where
  "is_space c \<longleftrightarrow>
     (9 \<le> c \<and> c \<le> 13) \<or> (28 \<le> c \<and> c \<le> 32) \<or> c = 133 \<or> c = 160 \<or> c = 5760
     \<or> (8192 \<le> c \<and> c \<le> 8202) \<or> c = 8232 \<or> c = 8233 \<or> c = 8239 \<or> c = 8287
     \<or> c = 12288"

definition py_strip :: "pystr \<Rightarrow> pystr" where
  "py_strip s = rev (dropWhile is_space (rev (dropWhile is_space s)))"

subsection \<open>The function\<close>

text \<open>
  The first step: the content as text. Dictionaries and lists go through \<open>json.dumps\<close>
  (indented by 2 unless \<open>compact\<close>), where every exception becomes a \<open>TypeError\<close>;
  the scalar types go through \<open>str()\<close>, whose \<open>ValueError\<close> for a long integer is
  not caught; bytes go through the UTF-8 decoder; anything else, a tuple too, is a
  \<open>TypeError\<close>. The first argument is the room the JSON encoder has for nesting.
\<close>

fun content_str :: "nat \<Rightarrow> pyval \<Rightarrow> bool \<Rightarrow> exc + pystr" where
  "content_str room (PDict kvs) compact =
     (case json_dumps room (if compact then None else Some 2) (PDict kvs) of
        None \<Rightarrow> Inl (TypeError JsonConversionFailed)
      | Some s \<Rightarrow> Inr s)"
| "content_str room (PList vs) compact =
     (case json_dumps room (if compact then None else Some 2) (PList vs) of
        None \<Rightarrow> Inl (TypeError JsonConversionFailed)
      | Some s \<Rightarrow> Inr s)"
| "content_str room (PStr s) compact = Inr s"
| "content_str room (PInt i) compact =
     (case str_int i of
        None \<Rightarrow> Inl (ValueError IntegerTooLong)
      | Some s \<Rightarrow> Inr s)"
| "content_str room (PFloat f) compact = Inr (str_float f)"
| "content_str room (PBool b) compact = Inr (str_bool b)"
| "content_str room PNone compact = Inr (lit ''None'')"
| "content_str room (PBytes b) compact =
     (case utf8_decode b of
        None \<Rightarrow> Inl (TypeError BytesNotUtf8)
      | Some s \<Rightarrow> Inr s)"
| "content_str room (PTuple vs) compact = Inl (TypeError UnsupportedType)"
| "content_str room PObject compact = Inl (TypeError UnsupportedType)"

text \<open>
  The steps between the conversion and the emptiness check: control and non-ASCII
  characters are deleted, line breaks are replaced, and in compact mode runs are
  collapsed and the ends trimmed.
\<close>

definition clean_text :: "bool \<Rightarrow> pystr \<Rightarrow> pystr" where
  "clean_text compact s =
     (let s1 = strip_unprintable s;
          s2 = replace_cr (replace_crlf s1)
      in if compact then py_strip (collapse_blanks (collapse_newlines s2)) else s2)"

definition sanitize_content :: "nat \<Rightarrow> pyval \<Rightarrow> bool \<Rightarrow> exc + pystr" where
  "sanitize_content room content compact =
     (case content_str room content compact of
        Inl e \<Rightarrow> Inl e
      | Inr s \<Rightarrow>
          (let t = clean_text compact s
           in if py_strip t = [] then Inl (ValueError EmptyContent) else Inr t))"

text \<open>Two neighbouring elements of a list that both satisfy \<open>P\<close>.\<close>

fun adjacent :: "('a \<Rightarrow> bool) \<Rightarrow> 'a list \<Rightarrow> bool" where
  "adjacent P (a # b # xs) \<longleftrightarrow> (P a \<and> P b) \<or> adjacent P (b # xs)"
| "adjacent P xs \<longleftrightarrow> False"

section \<open>The file system\<close>

text \<open>
  The file system is a map from resolved paths to entries: a regular file with its
  bytes, or a directory. Each entry carries the two answers \<open>os.access\<close> gives for it
  (\<open>R_OK\<close> and \<open>W_OK\<close>), and the operating system decides by the same two bits: the
  primitives below fail on a missing path, on a path of the wrong kind, and with
  \<open>PermissionError\<close> where the bit they need is not set. Making or removing an entry
  needs the write bit of the directory it sits in; opening a file for writing or for
  reading needs the write or the read bit of the file. A directory that cannot be
  searched is not part of the model. The platform is Linux: text written to a file
  keeps its \<open>\n\<close> line breaks.
\<close>

datatype entry =
    RegularFile (file_bytes: bytes) (can_read: bool) (can_write: bool)
  | Directory (can_read: bool) (can_write: bool)

type_synonym filesystem = "path \<rightharpoonup> entry"

definition path_exists :: "filesystem \<Rightarrow> path \<Rightarrow> bool" where
  "path_exists fs p \<longleftrightarrow> fs p \<noteq> None"

definition path_is_file :: "filesystem \<Rightarrow> path \<Rightarrow> bool" where
  "path_is_file fs p = (case fs p of Some (RegularFile d r w) \<Rightarrow> True | _ \<Rightarrow> False)"

definition path_is_dir :: "filesystem \<Rightarrow> path \<Rightarrow> bool" where
  "path_is_dir fs p = (case fs p of Some (Directory r w) \<Rightarrow> True | _ \<Rightarrow> False)"

definition os_access_R :: "filesystem \<Rightarrow> path \<Rightarrow> bool" where
  "os_access_R fs p = (case fs p of None \<Rightarrow> False | Some e \<Rightarrow> can_read e)"

definition os_access_W :: "filesystem \<Rightarrow> path \<Rightarrow> bool" where
  "os_access_W fs p = (case fs p of None \<Rightarrow> False | Some e \<Rightarrow> can_write e)"

text \<open>\<open>path.parent\<close> (the root is its own parent) and \<open>path.name\<close> (empty for the root).\<close>

definition parent :: "path \<Rightarrow> path" where
  "parent p = butlast p"

definition name :: "path \<Rightarrow> string" where
  "name p = (if p = [] then [] else last p)"

definition startswith_dot :: "string \<Rightarrow> bool" where
  "startswith_dot s = (case s of [] \<Rightarrow> False | c # cs \<Rightarrow> c = CHR ''.'')"

text \<open>The proper ancestors of a path, from the root down to its parent.\<close>

definition ancestors :: "path \<Rightarrow> path list" where
  "ancestors p = map (\<lambda>n. take n p) [0..<length p]"

definition under_file :: "filesystem \<Rightarrow> path \<Rightarrow> bool" where
  "under_file fs p = list_ex (path_is_file fs) (ancestors p)"

text \<open>
  A file system is a tree: the root is a directory, and whatever exists sits in a
  directory.
\<close>

definition well_formed :: "filesystem \<Rightarrow> bool" where
  "well_formed fs \<longleftrightarrow>
     path_is_dir fs [] \<and> (\<forall>p. path_exists fs p \<longrightarrow> p = [] \<or> path_is_dir fs (parent p))"

subsection \<open>Codecs\<close>

text \<open>
  The \<open>encoding\<close> argument names a codec. Three codecs are modelled; \<open>UnknownCodec\<close>
  is a name Python has no codec for (\<open>LookupError\<close>).
\<close>

datatype encoding = Utf8 | Ascii | Latin1 | UnknownCodec

definition utf8_encode_char :: "nat \<Rightarrow> bytes option" where
  "utf8_encode_char c =
     (if c < 0x80 then Some [char_of c]
      else if c < 0x800 then Some [char_of (0xC0 + c div 64), char_of (0x80 + c mod 64)]
      else if c < 0x10000 then
        (if 0xD800 \<le> c \<and> c \<le> 0xDFFF then None
         else Some [char_of (0xE0 + c div 4096), char_of (0x80 + (c div 64) mod 64),
                    char_of (0x80 + c mod 64)])
      else if c < 0x110000 then
        Some [char_of (0xF0 + c div 262144), char_of (0x80 + (c div 4096) mod 64),
              char_of (0x80 + (c div 64) mod 64), char_of (0x80 + c mod 64)]
      else None)"

fun utf8_encode :: "pystr \<Rightarrow> bytes option" where
  "utf8_encode [] = Some []"
| "utf8_encode (c # cs) =
     (case utf8_encode_char c of
        None \<Rightarrow> None
      | Some b \<Rightarrow> map_option ((@) b) (utf8_encode cs))"

fun encode :: "encoding \<Rightarrow> pystr \<Rightarrow> exc + bytes" where
  "encode Utf8 s =
     (case utf8_encode s of None \<Rightarrow> Inl UnicodeEncodeError | Some b \<Rightarrow> Inr b)"
| "encode Ascii s =
     (if list_all (\<lambda>c. c < 128) s then Inr (map char_of s) else Inl UnicodeEncodeError)"
| "encode Latin1 s =
     (if list_all (\<lambda>c. c < 256) s then Inr (map char_of s) else Inl UnicodeEncodeError)"
| "encode UnknownCodec s = Inl LookupError"

fun decode :: "encoding \<Rightarrow> bytes \<Rightarrow> exc + pystr" where
  "decode Utf8 bs =
     (case utf8_decode bs of None \<Rightarrow> Inl UnicodeDecodeError | Some s \<Rightarrow> Inr s)"
| "decode Ascii bs =
     (if list_all (\<lambda>b. (of_char b :: nat) < 128) bs then Inr (map of_char bs)
      else Inl UnicodeDecodeError)"
| "decode Latin1 bs = Inr (map of_char bs)"
| "decode UnknownCodec bs = Inl LookupError"

subsection \<open>The primitives of \<open>os\<close> and \<open>pathlib\<close>\<close>

text \<open>Every primitive returns its result, or the exception it raises, and the new state.\<close>

text \<open>
  \<open>os.mkdir(p)\<close>: the new directory can be read and written by its maker.
\<close>

definition os_mkdir :: "filesystem \<Rightarrow> path \<Rightarrow> (exc + unit) \<times> filesystem" where
  "os_mkdir fs p =
     (if path_exists fs p then (Inl FileExistsError, fs)
      else if under_file fs p then (Inl NotADirectoryError, fs)
      else if \<not> path_is_dir fs (parent p) then (Inl FileNotFoundError, fs)
      else if \<not> os_access_W fs (parent p) then (Inl PermissionError, fs)
      else (Inr (), fs(p \<mapsto> Directory True True)))"

text \<open>
  \<open>Path.mkdir(parents, exist_ok)\<close>: on \<open>FileNotFoundError\<close> the parents are made first
  and the call is repeated without \<open>parents\<close>; any other \<open>OSError\<close> is let through
  unless \<open>exist_ok\<close> is set and the path is a directory.
\<close>

function path_mkdir ::
  "filesystem \<Rightarrow> path \<Rightarrow> bool \<Rightarrow> bool \<Rightarrow> (exc + unit) \<times> filesystem" where
  "path_mkdir fs p parents exist_ok =
     (case os_mkdir fs p of
        (Inr u, fs1) \<Rightarrow> (Inr (), fs1)
      | (Inl e, fs1) \<Rightarrow>
          if e = FileNotFoundError then
            (if parents \<and> parent p \<noteq> p then
               (case path_mkdir fs1 (parent p) True True of
                  (Inl e1, fs2) \<Rightarrow> (Inl e1, fs2)
                | (Inr u, fs2) \<Rightarrow> path_mkdir fs2 p False exist_ok)
             else (Inl e, fs1))
          else if exist_ok \<and> path_is_dir fs1 p then (Inr (), fs1)
          else (Inl e, fs1))"
  by pat_completeness auto
termination
  apply (relation "measure (\<lambda>(fs, p, parents, exist_ok). 2 * length p + (if parents then 1 else 0))")
    apply (auto simp: parent_def)
  apply (case_tac p; simp)
  done

declare path_mkdir.simps [simp del]

text \<open>
  \<open>os.unlink(p)\<close>: the permission to remove an entry is that of the directory it sits
  in, and is checked before the kind of the entry.
\<close>

definition os_unlink :: "filesystem \<Rightarrow> path \<Rightarrow> (exc + unit) \<times> filesystem" where
  "os_unlink fs p =
     (case fs p of
        None \<Rightarrow>
          if under_file fs p then (Inl NotADirectoryError, fs)
          else (Inl FileNotFoundError, fs)
      | Some e \<Rightarrow>
          if \<not> os_access_W fs (parent p) then (Inl PermissionError, fs)
          else
            (case e of
               Directory r w \<Rightarrow> (Inl IsADirectoryError, fs)
             | RegularFile d r w \<Rightarrow> (Inr (), fs(p := None))))"

text \<open>
  \<open>open(p, 'w')\<close> creates the file or empties an existing one, before anything is
  written and before the codec is looked up. An existing file has to be writable; a
  new one is made in a writable directory and can be read and written by its maker.
\<close>

definition open_w :: "filesystem \<Rightarrow> path \<Rightarrow> (exc + unit) \<times> filesystem" where
  "open_w fs p =
     (case fs p of
        Some (Directory r w) \<Rightarrow> (Inl IsADirectoryError, fs)
      | Some (RegularFile d r w) \<Rightarrow>
          if w then (Inr (), fs(p \<mapsto> RegularFile [] r w)) else (Inl PermissionError, fs)
      | None \<Rightarrow>
          if under_file fs p then (Inl NotADirectoryError, fs)
          else if \<not> path_is_dir fs (parent p) then (Inl FileNotFoundError, fs)
          else if \<not> os_access_W fs (parent p) then (Inl PermissionError, fs)
          else (Inr (), fs(p \<mapsto> RegularFile [] True True)))"

definition put_bytes :: "filesystem \<Rightarrow> path \<Rightarrow> bytes \<Rightarrow> filesystem" where
  "put_bytes fs p data =
     (case fs p of
        Some (RegularFile d r w) \<Rightarrow> fs(p \<mapsto> RegularFile data r w)
      | _ \<Rightarrow> fs)"

definition write_text ::
  "filesystem \<Rightarrow> path \<Rightarrow> pystr \<Rightarrow> encoding \<Rightarrow> (exc + unit) \<times> filesystem" where
  "write_text fs p s enc =
     (case open_w fs p of
        (Inl e, fs1) \<Rightarrow> (Inl e, fs1)
      | (Inr u, fs1) \<Rightarrow>
          (case encode enc s of
             Inl e \<Rightarrow> (Inl e, fs1)
           | Inr data \<Rightarrow> (Inr (), put_bytes fs1 p data)))"

definition read_bytes :: "filesystem \<Rightarrow> path \<Rightarrow> exc + bytes" where
  "read_bytes fs p =
     (case fs p of
        None \<Rightarrow> Inl FileNotFoundError
      | Some (Directory r w) \<Rightarrow> if r then Inl IsADirectoryError else Inl PermissionError
      | Some (RegularFile d r w) \<Rightarrow> if r then Inr d else Inl PermissionError)"

text \<open>Reading in text mode translates \<open>\r\n\<close> and \<open>\r\<close> to \<open>\n\<close> after decoding.\<close>

definition read_text :: "filesystem \<Rightarrow> path \<Rightarrow> encoding \<Rightarrow> exc + pystr" where
  "read_text fs p enc =
     (case read_bytes fs p of
        Inl e \<Rightarrow> Inl e
      | Inr data \<Rightarrow>
          (case decode enc data of
             Inl e \<Rightarrow> Inl e
           | Inr s \<Rightarrow> Inr (replace_cr (replace_crlf s))))"

section \<open>Path validation (\<open>utils._validate_path\<close>)\<close>

text \<open>
  The keyword arguments of \<open>_validate_path\<close>; \<open>is_file\<close> is \<open>None\<close>, \<open>True\<close> (a file is
  expected) or \<open>False\<close> (a directory is expected). The path argument is a resolved
  path, so the \<open>TypeError\<close> for an argument that is neither a string nor a path has no
  input here.
\<close>

record constraints =
  must_exist :: bool
  is_file :: "bool option"
  readable :: bool
  writable :: bool
  allow_hidden :: bool

definition default_constraints :: constraints where
  "default_constraints =
     \<lparr>must_exist = True, is_file = None, readable = False, writable = False,
      allow_hidden = True\<rparr>"

definition validate_path :: "filesystem \<Rightarrow> path \<Rightarrow> constraints \<Rightarrow> exc + path" where
  "validate_path fs p c =
     (if must_exist c \<and> \<not> path_exists fs p then Inl (PathValidationError p NotFound)
      else if is_file c = Some True \<and> \<not> path_is_file fs p then
        Inl (PathValidationError p WrongKind)
      else if is_file c = Some False \<and> \<not> path_is_dir fs p then
        Inl (PathValidationError p WrongKind)
      else if \<not> allow_hidden c \<and> startswith_dot (name p) then
        Inl (PathValidationError p HiddenRejected)
      else if readable c \<and> \<not> os_access_R fs p then
        Inl (PathValidationError p NotReadable)
      else if writable c \<and> \<not> os_access_W fs p then
        Inl (PathValidationError p NotWritable)
      else Inr p)"

text \<open>
  The checks as the specification lists them, each on its own, and the rule that the
  first failing one decides the error.
\<close>

datatype check = Existence | Kind | Hidden | Readability | Writability

fun check_fails :: "filesystem \<Rightarrow> path \<Rightarrow> constraints \<Rightarrow> check \<Rightarrow> bool" where
  "check_fails fs p c Existence \<longleftrightarrow> must_exist c \<and> \<not> path_exists fs p"
| "check_fails fs p c Kind \<longleftrightarrow>
     (is_file c = Some True \<and> \<not> path_is_file fs p)
     \<or> (is_file c = Some False \<and> \<not> path_is_dir fs p)"
| "check_fails fs p c Hidden \<longleftrightarrow> \<not> allow_hidden c \<and> startswith_dot (name p)"
| "check_fails fs p c Readability \<longleftrightarrow> readable c \<and> \<not> os_access_R fs p"
| "check_fails fs p c Writability \<longleftrightarrow> writable c \<and> \<not> os_access_W fs p"

fun check_reason :: "check \<Rightarrow> reason" where
  "check_reason Existence = NotFound"
| "check_reason Kind = WrongKind"
| "check_reason Hidden = HiddenRejected"
| "check_reason Readability = NotReadable"
| "check_reason Writability = NotWritable"

definition first_failing_check :: "filesystem \<Rightarrow> path \<Rightarrow> constraints \<Rightarrow> exc + path" where
  "first_failing_check fs p c =
     (case find (check_fails fs p c) [Existence, Kind, Hidden, Readability, Writability] of
        None \<Rightarrow> Inr p
      | Some k \<Rightarrow> Inl (PathValidationError p (check_reason k)))"

section \<open>Directory creation (\<open>utils._ensure_directory\<close>)\<close>

definition is_OSError :: "exc \<Rightarrow> bool" where
  "is_OSError e \<longleftrightarrow>
     e = FileNotFoundError \<or> e = FileExistsError \<or> e = IsADirectoryError
     \<or> e = NotADirectoryError \<or> e = PermissionError"

definition ensure_directory ::
  "filesystem \<Rightarrow> path \<Rightarrow> bool \<Rightarrow> bool \<Rightarrow> (exc + path) \<times> filesystem" where
  "ensure_directory fs directory create_if_missing exist_ok =
     (if path_exists fs directory then
        (if \<not> path_is_dir fs directory then
           (Inl (PathValidationError directory WrongKind), fs)
         else if \<not> exist_ok then (Inl (PathValidationError directory AlreadyExists), fs)
         else (Inr directory, fs))
      else if \<not> create_if_missing then (Inl (PathValidationError directory NotFound), fs)
      else
        (case path_mkdir fs directory True exist_ok of
           (Inr u, fs1) \<Rightarrow> (Inr directory, fs1)
         | (Inl e, fs1) \<Rightarrow>
             if e = PermissionError then
               (Inl (PathValidationError directory PermissionDenied), fs1)
             else if is_OSError e then
               (Inl (PathValidationError directory DirectoryCreateFailed), fs1)
             else (Inl e, fs1)))"

section \<open>The three operations (\<open>core.py\<close>)\<close>

subsection \<open>\<open>create_file\<close>\<close>

text \<open>
  The body of the \<open>try\<close> block. The first argument is the room the interpreter has for
  nesting when the call is made (it matters to \<open>json.dumps\<close> only).
\<close>

definition create_file_try ::
  "nat \<Rightarrow> filesystem \<Rightarrow> path \<Rightarrow> pyval \<Rightarrow> bool \<Rightarrow> bool \<Rightarrow> encoding
     \<Rightarrow> (exc + path) \<times> filesystem"
where
  "create_file_try room fs p content overwrite compact enc =
     (if path_exists fs p \<and> \<not> overwrite then
        (Inl (PathValidationError p AlreadyExists), fs)
      else
        (case ensure_directory fs (parent p) True True of
           (Inl e, fs1) \<Rightarrow> (Inl e, fs1)
         | (Inr d, fs1) \<Rightarrow>
             (case sanitize_content room content compact of
                Inl e \<Rightarrow> (Inl e, fs1)
              | Inr safe_content \<Rightarrow>
                  (case write_text fs1 p safe_content enc of
                     (Inl e, fs2) \<Rightarrow> (Inl e, fs2)
                   | (Inr u, fs2) \<Rightarrow> (Inr p, fs2)))))"

text \<open>
  The \<open>except\<close> clauses, in their order. \<open>UnicodeEncodeError\<close> and
  \<open>UnicodeDecodeError\<close> are subclasses of \<open>ValueError\<close>.
\<close>

fun create_file_except :: "path \<Rightarrow> exc \<Rightarrow> exc" where
  "create_file_except p (TypeError t) = TypeError t"
| "create_file_except p (ValueError v) = ValueError v"
| "create_file_except p UnicodeEncodeError = UnicodeEncodeError"
| "create_file_except p UnicodeDecodeError = UnicodeDecodeError"
| "create_file_except p (PathValidationError q r) = PathValidationError q r"
| "create_file_except p PermissionError = PathValidationError p PermissionDenied"
| "create_file_except p IsADirectoryError = PathValidationError p IsADirectory"
| "create_file_except p e = PathValidationError p UnexpectedFailure"

definition create_file ::
  "nat \<Rightarrow> filesystem \<Rightarrow> path \<Rightarrow> pyval \<Rightarrow> bool \<Rightarrow> bool \<Rightarrow> encoding
     \<Rightarrow> (exc + path) \<times> filesystem"
where
  "create_file room fs p content overwrite compact enc =
     (case create_file_try room fs p content overwrite compact enc of
        (Inl e, fs1) \<Rightarrow> (Inl (create_file_except p e), fs1)
      | (Inr r, fs1) \<Rightarrow> (Inr r, fs1))"

subsection \<open>\<open>read_file\<close>\<close>

datatype file_content = Text pystr | Binary bytes

definition read_file_try :: "filesystem \<Rightarrow> path \<Rightarrow> bool \<Rightarrow> encoding \<Rightarrow> exc + file_content" where
  "read_file_try fs p as_bytes enc =
     (case validate_path fs p
             \<lparr>must_exist = True, is_file = Some True, readable = True, writable = False,
              allow_hidden = True\<rparr> of
        Inl e \<Rightarrow> Inl e
      | Inr file_path \<Rightarrow>
          if as_bytes then
            (case read_bytes fs file_path of Inl e \<Rightarrow> Inl e | Inr b \<Rightarrow> Inr (Binary b))
          else
            (case read_text fs file_path enc of Inl e \<Rightarrow> Inl e | Inr s \<Rightarrow> Inr (Text s)))"

text \<open>
  The constructor of \<open>UnicodeDecodeError\<close> takes exactly five arguments (encoding, object,
  start, end, reason); called with any other number it raises \<open>TypeError\<close> instead of
  returning an exception object.
\<close>

definition new_UnicodeDecodeError :: "nat \<Rightarrow> exc + exc" where
  "new_UnicodeDecodeError n_args =
     (if n_args = 5 then Inr UnicodeDecodeError else Inl (TypeError WrongArgumentCount))"

text \<open>
  The \<open>except\<close> clauses, in their order; the clause for \<open>UnicodeDecodeError\<close> builds
  its exception from one argument, the message.
\<close>

fun read_file_except :: "path \<Rightarrow> exc \<Rightarrow> exc" where
  "read_file_except p FileNotFoundError = FileNotFoundError"
| "read_file_except p PermissionError = PathValidationError p PermissionDenied"
| "read_file_except p UnicodeDecodeError =
     (case new_UnicodeDecodeError 1 of Inl e \<Rightarrow> e | Inr e \<Rightarrow> e)"
| "read_file_except p (PathValidationError q r) = PathValidationError q r"
| "read_file_except p e = PathValidationError p UnexpectedFailure"

definition read_file :: "filesystem \<Rightarrow> path \<Rightarrow> bool \<Rightarrow> encoding \<Rightarrow> exc + file_content" where
  "read_file fs p as_bytes enc =
     (case read_file_try fs p as_bytes enc of
        Inl e \<Rightarrow> Inl (read_file_except p e)
      | Inr r \<Rightarrow> Inr r)"

subsection \<open>\<open>delete_file\<close>\<close>

definition delete_file_try :: "filesystem \<Rightarrow> path \<Rightarrow> (exc + bool) \<times> filesystem" where
  "delete_file_try fs p =
     (case validate_path fs p
             \<lparr>must_exist = True, is_file = Some True, readable = False, writable = False,
              allow_hidden = True\<rparr> of
        Inl e \<Rightarrow> (Inl e, fs)
      | Inr file_path \<Rightarrow>
          (case os_unlink fs file_path of
             (Inl e, fs1) \<Rightarrow> (Inl e, fs1)
           | (Inr u, fs1) \<Rightarrow> (Inr True, fs1)))"

text \<open>
  The \<open>except\<close> clauses, in their order: only \<open>FileNotFoundError\<close> is turned into the
  result \<open>False\<close>, and only when \<open>ignore_missing\<close> is set.
\<close>

fun delete_file_except :: "path \<Rightarrow> bool \<Rightarrow> exc \<Rightarrow> exc + bool" where
  "delete_file_except p ignore_missing FileNotFoundError =
     (if ignore_missing then Inr False else Inl FileNotFoundError)"
| "delete_file_except p ignore_missing IsADirectoryError =
     Inl (PathValidationError p IsADirectory)"
| "delete_file_except p ignore_missing PermissionError =
     Inl (PathValidationError p PermissionDenied)"
| "delete_file_except p ignore_missing (PathValidationError q r) =
     Inl (PathValidationError q r)"
| "delete_file_except p ignore_missing e = Inl (PathValidationError p UnexpectedFailure)"

definition delete_file :: "filesystem \<Rightarrow> path \<Rightarrow> bool \<Rightarrow> (exc + bool) \<times> filesystem" where
  "delete_file fs p ignore_missing =
     (case delete_file_try fs p of
        (Inl e, fs1) \<Rightarrow> (delete_file_except p ignore_missing e, fs1)
      | (Inr r, fs1) \<Rightarrow> (Inr r, fs1))"

section \<open>Auxiliary notions for the statements\<close>

text \<open>
  The file system in which the directory \<open>d\<close> and every ancestor of \<open>d\<close> that was
  missing now exist as fresh directories, and everything else is as before.
\<close>

definition with_directories :: "filesystem \<Rightarrow> path \<Rightarrow> filesystem" where
  "with_directories fs d =
     (\<lambda>q. if fs q = None \<and> q \<in> set (ancestors d @ [d]) then Some (Directory True True)
          else fs q)"

text \<open>
  The deepest proper ancestor of a path that exists (the root when none does): the
  directory in which the first missing one, or the path itself, has to be made.
\<close>

definition nearest_ancestor :: "filesystem \<Rightarrow> path \<Rightarrow> path" where
  "nearest_ancestor fs p = last ([] # filter (path_exists fs) (ancestors p))"

section \<open>Reading JSON back (\<open>json.loads\<close>)\<close>

text \<open>
  The decoder of the standard library, as far as the values above go: the reader the
  round trip of a dictionary is measured with. A failure is \<open>JSONDecodeError\<close>;
  \<open>DigitLimit\<close> for the \<open>ValueError\<close> of \<open>int\<close> on more than 4300 digits;
  \<open>NotModelled\<close> where the text holds an escaped surrogate and the model says nothing
  about what Python returns; \<open>RecursionLimit\<close> where the nesting exhausts the fuel.
\<close>

datatype json_failure = JSONDecodeError | DigitLimit | NotModelled | RecursionLimit

definition json_ws :: "nat \<Rightarrow> bool" where
  "json_ws c \<longleftrightarrow> c = SP \<or> c = TAB \<or> c = LF \<or> c = CR"

definition skip_ws :: "pystr \<Rightarrow> pystr" where
  "skip_ws s = dropWhile json_ws s"

definition hex_value :: "nat \<Rightarrow> nat option" where
  "hex_value c =
     (if 48 \<le> c \<and> c \<le> 57 then Some (c - 48)
      else if 97 \<le> c \<and> c \<le> 102 then Some (c - 87)
      else if 65 \<le> c \<and> c \<le> 70 then Some (c - 55)
      else None)"

definition hex4 :: "nat \<Rightarrow> nat \<Rightarrow> nat \<Rightarrow> nat \<Rightarrow> nat option" where
  "hex4 a b c d =
     (case (hex_value a, hex_value b, hex_value c, hex_value d) of
        (Some w, Some x, Some y, Some z) \<Rightarrow> Some (4096 * w + 256 * x + 16 * y + z)
      | _ \<Rightarrow> None)"

text \<open>The character a one-letter escape stands for.\<close>

definition unescape :: "nat \<Rightarrow> nat option" where
  "unescape e =
     (if e = 34 then Some 34
      else if e = 92 then Some 92
      else if e = 47 then Some 47
      else if e = 98 then Some 8
      else if e = 102 then Some 12
      else if e = 110 then Some 10
      else if e = 114 then Some 13
      else if e = 116 then Some 9
      else None)"

definition push :: "nat \<Rightarrow> json_failure + (pystr \<times> pystr) \<Rightarrow> json_failure + (pystr \<times> pystr)" where
  "push c res = (case res of Inl e \<Rightarrow> Inl e | Inr (s, r) \<Rightarrow> Inr (c # s, r))"

text \<open>
  The text after an opening quote, up to the closing quote: the string it denotes and
  what follows. A raw control character is refused (strict mode).
\<close>

fun scanstring :: "pystr \<Rightarrow> json_failure + (pystr \<times> pystr)" where
  "scanstring [] = Inl JSONDecodeError"
| "scanstring (c # cs) =
     (if c = 34 then Inr ([], cs)
      else if c = 92 then
        (case cs of
           [] \<Rightarrow> Inl JSONDecodeError
         | e # r \<Rightarrow>
             if e = 117 then
               (case r of
                  h1 # h2 # h3 # h4 # r' \<Rightarrow>
                    (case hex4 h1 h2 h3 h4 of
                       None \<Rightarrow> Inl JSONDecodeError
                     | Some u \<Rightarrow>
                         if 0xD800 \<le> u \<and> u \<le> 0xDFFF then Inl NotModelled
                         else push u (scanstring r'))
                | _ \<Rightarrow> Inl JSONDecodeError)
             else
               (case unescape e of
                  None \<Rightarrow> Inl JSONDecodeError
                | Some d \<Rightarrow> push d (scanstring r)))
      else if c < 32 then Inl JSONDecodeError
      else push c (scanstring cs))"

definition is_digit :: "nat \<Rightarrow> bool" where
  "is_digit c \<longleftrightarrow> 48 \<le> c \<and> c \<le> 57"

definition digits_value :: "pystr \<Rightarrow> nat" where
  "digits_value ds = foldl (\<lambda>a d. 10 * a + (d - 48)) 0 ds"

text \<open>
  The number pattern is an optional minus and \<open>0\<close> or a digit from 1 to 9 with more
  digits, then optionally a fraction (a point and digits), then optionally an exponent
  (\<open>e\<close> or \<open>E\<close>, an optional sign and digits). The two functions below read the
  optional parts: the text matched (empty when the part is absent) and what follows.
\<close>

definition lex_frac :: "pystr \<Rightarrow> pystr \<times> pystr" where
  "lex_frac s =
     (case s of
        c # d # r \<Rightarrow>
          if c = 46 \<and> is_digit d
          then (c # takeWhile is_digit (d # r), dropWhile is_digit (d # r))
          else ([], s)
      | _ \<Rightarrow> ([], s))"

definition lex_exp :: "pystr \<Rightarrow> pystr \<times> pystr" where
  "lex_exp s =
     (case s of
        [] \<Rightarrow> ([], s)
      | c # r \<Rightarrow>
          if c = 101 \<or> c = 69 then
            (case r of
               [] \<Rightarrow> ([], s)
             | d # r' \<Rightarrow>
                 if is_digit d then (c # takeWhile is_digit r, dropWhile is_digit r)
                 else if d = 43 \<or> d = 45 then
                   (case r' of
                      [] \<Rightarrow> ([], s)
                    | d' # r'' \<Rightarrow>
                        if is_digit d'
                        then (c # d # takeWhile is_digit r', dropWhile is_digit r')
                        else ([], s))
                 else ([], s))
          else ([], s))"

text \<open>
  A number without fraction and exponent is an integer, read by \<open>int\<close>, which refuses
  more than 4300 digits as \<open>str\<close> does. One with either is a float:
  \<open>float\<close> of the text matched. The model names that float by the text itself, which is
  its name when the text is the \<open>repr\<close> of a float, as every number the encoder wrote
  for a float is (\<open>float(repr(x)) == x\<close>); on another text for the same float
  (\<open>1.50\<close>, \<open>1E5\<close>) the name is not the one \<open>repr\<close> gives.
\<close>

definition number_result :: "bool \<Rightarrow> pystr \<Rightarrow> pystr \<Rightarrow> json_failure + (pyval \<times> pystr)" where
  "number_result negative ds rest =
     (case lex_frac rest of
        (frac, r1) \<Rightarrow>
          (case lex_exp r1 of
             (ex, r2) \<Rightarrow>
               if frac = [] \<and> ex = [] then
                 (if int_max_str_digits < length ds then Inl DigitLimit
                  else
                    Inr (PInt (if negative then - int (digits_value ds)
                               else int (digits_value ds)),
                         rest))
               else
                 Inr (PFloat (Finite ((if negative then [45] else []) @ ds @ frac @ ex)), r2)))"

text \<open>Where the number pattern does not match, the three constants are tried.\<close>

definition no_number :: "pystr \<Rightarrow> json_failure + (pyval \<times> pystr)" where
  "no_number s =
     (if take 3 s = lit ''NaN'' then Inr (PFloat NaN, drop 3 s)
      else if take 8 s = lit ''Infinity'' then Inr (PFloat PosInf, drop 8 s)
      else if take 9 s = lit ''-Infinity'' then Inr (PFloat NegInf, drop 9 s)
      else Inl JSONDecodeError)"

definition parse_number :: "pystr \<Rightarrow> json_failure + (pyval \<times> pystr)" where
  "parse_number s =
     (let negative = (case s of [] \<Rightarrow> False | c # r \<Rightarrow> c = 45);
          r = (if negative then tl s else s)
      in case r of
           [] \<Rightarrow> no_number s
         | d # r' \<Rightarrow>
             if d = 48 then number_result negative [48] r'
             else if is_digit d then
               number_result negative (takeWhile is_digit r) (dropWhile is_digit r)
             else no_number s)"

text \<open>
  \<open>dict(pairs)\<close>: a key that comes again keeps its place and takes the later value.
\<close>

definition dict_set :: "(pystr \<times> pyval) list \<Rightarrow> pystr \<times> pyval \<Rightarrow> (pystr \<times> pyval) list" where
  "dict_set kvs kv =
     (if fst kv \<in> fst ` set kvs
      then map (\<lambda>old. if fst old = fst kv then kv else old) kvs
      else kvs @ [kv])"

definition make_dict :: "(pystr \<times> pyval) list \<Rightarrow> (pystr \<times> pyval) list" where
  "make_dict pairs = foldl dict_set [] pairs"

text \<open>
  \<open>scan_once\<close> reads one value from the front of the text; the two loops read the
  items of an array after its bracket and the pairs of an object after its brace. The
  first argument is the fuel.
\<close>

fun scan_once :: "nat \<Rightarrow> pystr \<Rightarrow> json_failure + (pyval \<times> pystr)"
  and parse_array_items :: "nat \<Rightarrow> pystr \<Rightarrow> json_failure + (pyval list \<times> pystr)"
  and parse_object_pairs :: "nat \<Rightarrow> pystr \<Rightarrow> json_failure + ((pystr \<times> pyval) list \<times> pystr)"
where
  "scan_once 0 s = Inl RecursionLimit"
| "scan_once (Suc n) s =
     (case s of
        [] \<Rightarrow> Inl JSONDecodeError
      | c # cs \<Rightarrow>
          if c = 34 then
            (case scanstring cs of Inl e \<Rightarrow> Inl e | Inr (str, r) \<Rightarrow> Inr (PStr str, r))
          else if c = 123 then
            (case skip_ws cs of
               [] \<Rightarrow> Inl JSONDecodeError
             | d # r \<Rightarrow>
                 if d = 125 then Inr (PDict [], r)
                 else
                   (case parse_object_pairs n (d # r) of
                      Inl e \<Rightarrow> Inl e
                    | Inr (kvs, r') \<Rightarrow> Inr (PDict (make_dict kvs), r')))
          else if c = 91 then
            (case skip_ws cs of
               [] \<Rightarrow> Inl JSONDecodeError
             | d # r \<Rightarrow>
                 if d = 93 then Inr (PList [], r)
                 else
                   (case parse_array_items n (d # r) of
                      Inl e \<Rightarrow> Inl e
                    | Inr (vs, r') \<Rightarrow> Inr (PList vs, r')))
          else if take 4 s = lit ''null'' then Inr (PNone, drop 4 s)
          else if take 4 s = lit ''true'' then Inr (PBool True, drop 4 s)
          else if take 5 s = lit ''false'' then Inr (PBool False, drop 5 s)
          else parse_number s)"
| "parse_array_items 0 s = Inl RecursionLimit"
| "parse_array_items (Suc n) s =
     (case scan_once n s of
        Inl e \<Rightarrow> Inl e
      | Inr (v, r) \<Rightarrow>
          (case skip_ws r of
             [] \<Rightarrow> Inl JSONDecodeError
           | c # r1 \<Rightarrow>
               if c = 93 then Inr ([v], r1)
               else if c = 44 then
                 (case parse_array_items n (skip_ws r1) of
                    Inl e \<Rightarrow> Inl e
                  | Inr (vs, r2) \<Rightarrow> Inr (v # vs, r2))
               else Inl JSONDecodeError))"
| "parse_object_pairs 0 s = Inl RecursionLimit"
| "parse_object_pairs (Suc n) s =
     (case s of
        [] \<Rightarrow> Inl JSONDecodeError
      | q # r \<Rightarrow>
          if q = 34 then
            (case scanstring r of
               Inl e \<Rightarrow> Inl e
             | Inr (key, r1) \<Rightarrow>
                 (case skip_ws r1 of
                    [] \<Rightarrow> Inl JSONDecodeError
                  | c # r2 \<Rightarrow>
                      if c = 58 then
                        (case scan_once n (skip_ws r2) of
                           Inl e \<Rightarrow> Inl e
                         | Inr (v, r3) \<Rightarrow>
                             (case skip_ws r3 of
                                [] \<Rightarrow> Inl JSONDecodeError
                              | d # r4 \<Rightarrow>
                                  if d = 125 then Inr ([(key, v)], r4)
                                  else if d = 44 then
                                    (case parse_object_pairs n (skip_ws r4) of
                                       Inl e \<Rightarrow> Inl e
                                     | Inr (kvs, r5) \<Rightarrow> Inr ((key, v) # kvs, r5))
                                  else Inl JSONDecodeError))
                      else Inl JSONDecodeError))
          else Inl JSONDecodeError)"

text \<open>
  \<open>json.loads(s)\<close>: one value, with nothing but whitespace around it. The reader is
  given all the room it can use: the fuel is the length of the text, which no nesting
  in it can exceed.
\<close>

definition json_loads :: "pystr \<Rightarrow> json_failure + pyval" where
  "json_loads s =
     (case scan_once (Suc (length s)) (skip_ws s) of
        Inl e \<Rightarrow> Inl e
      | Inr (v, r) \<Rightarrow> if skip_ws r = [] then Inr v else Inl JSONDecodeError)"

section \<open>Auxiliary notions for the round trip\<close>

text \<open>
  A text that the number pattern matches from end to end as a float. The \<open>repr\<close> of
  every finite float is one.
\<close>

definition float_text :: "pystr \<Rightarrow> bool" where
  "float_text r \<longleftrightarrow> parse_number r = Inr (PFloat (Finite r), [])"

text \<open>The characters a number is written with.\<close>

definition number_char :: "nat \<Rightarrow> bool" where
  "number_char c \<longleftrightarrow> is_digit c \<or> c = 45 \<or> c = 43 \<or> c = 46 \<or> c = 101 \<or> c = 69"

text \<open>
  The plain values: built from \<open>None\<close>, booleans, integers, floats other than NaN,
  strings, lists and dictionaries whose keys are distinct, where no string holds a
  character above U+007E or two spaces in a row. A NaN is left out because it is not
  equal to itself, a tuple because it is read back as a list.
\<close>

definition plain_string :: "pystr \<Rightarrow> bool" where
  "plain_string s \<longleftrightarrow> list_all (\<lambda>c. c < 127) s \<and> \<not> adjacent (\<lambda>c. c = SP) s"

fun plain_float :: "pyfloat \<Rightarrow> bool" where
  "plain_float (Finite r) = float_text r"
| "plain_float PosInf = True"
| "plain_float NegInf = True"
| "plain_float NaN = False"

fun plain_value :: "pyval \<Rightarrow> bool"
  and plain_items :: "pyval list \<Rightarrow> bool"
  and plain_members :: "(pystr \<times> pyval) list \<Rightarrow> bool"
where
  "plain_value PNone = True"
| "plain_value (PBool b) = True"
| "plain_value (PInt i) = True"
| "plain_value (PFloat f) = plain_float f"
| "plain_value (PStr s) = plain_string s"
| "plain_value (PList vs) = plain_items vs"
| "plain_value (PDict kvs) = (distinct (map fst kvs) \<and> plain_members kvs)"
| "plain_value (PTuple vs) = False"
| "plain_value (PBytes b) = False"
| "plain_value PObject = False"
| "plain_items [] = True"
| "plain_items (v # vs) = (plain_value v \<and> plain_items vs)"
| "plain_members [] = True"
| "plain_members ((k, v) # kvs) = (plain_string k \<and> plain_value v \<and> plain_members kvs)"

text \<open>
  A value within the limits of the interpreter: no integer in it has more than 4300
  digits, and its containers are nested no deeper than \<open>room\<close>.
\<close>

fun within_limits :: "nat \<Rightarrow> pyval \<Rightarrow> bool"
  and within_limits_items :: "nat \<Rightarrow> pyval list \<Rightarrow> bool"
  and within_limits_members :: "nat \<Rightarrow> (pystr \<times> pyval) list \<Rightarrow> bool"
where
  "within_limits room (PInt i) = (length (str_nat (nat \<bar>i\<bar>)) \<le> int_max_str_digits)"
| "within_limits room (PList vs) = (0 < room \<and> within_limits_items (room - 1) vs)"
| "within_limits room (PTuple vs) = (0 < room \<and> within_limits_items (room - 1) vs)"
| "within_limits room (PDict kvs) = (0 < room \<and> within_limits_members (room - 1) kvs)"
| "within_limits room PNone = True"
| "within_limits room (PBool b) = True"
| "within_limits room (PFloat f) = True"
| "within_limits room (PStr s) = True"
| "within_limits room (PBytes b) = True"
| "within_limits room PObject = True"
| "within_limits_items room [] = True"
| "within_limits_items room (v # vs) = (within_limits room v \<and> within_limits_items room vs)"
| "within_limits_members room [] = True"
| "within_limits_members room ((k, v) # kvs) =
     (within_limits room v \<and> within_limits_members room kvs)"

text \<open>
  What follows a value in the text the encoder writes: nothing, a comma or a closing
  bracket or brace.
\<close>

definition delimited :: "pystr \<Rightarrow> bool" where
  "delimited rest \<longleftrightarrow> rest = [] \<or> hd rest = 44 \<or> hd rest = 93 \<or> hd rest = 125"

text \<open>The characters a value's text can start with.\<close>

definition value_start :: "nat \<Rightarrow> bool" where
  "value_start c \<longleftrightarrow>
     c = 34 \<or> c = 123 \<or> c = 91 \<or> c = 110 \<or> c = 116 \<or> c = 102 \<or> c = 73 \<or> c = 45
     \<or> is_digit c"

text \<open>
  A text of printable ASCII characters that neither starts nor ends with a space and has
  no two spaces in a row: compact cleaning leaves such a text as it is.
\<close>

definition tight :: "pystr \<Rightarrow> bool" where
  "tight t \<longleftrightarrow>
     t \<noteq> [] \<and> hd t \<noteq> SP \<and> last t \<noteq> SP \<and> \<not> adjacent (\<lambda>c. c = SP) t
     \<and> list_all (\<lambda>c. 32 \<le> c \<and> c \<le> 126) t"

section \<open>Properties of the sanitizer\<close>

subsection \<open>Compact mode\<close>

lemma collapse_newlines_hd: "collapse_newlines xs = y # ys \<Longrightarrow> \<exists>zs. xs = y # zs"
  by (cases xs) (auto split: if_splits)

lemma dropWhile_hd_not: "dropWhile P cs = y # ys \<Longrightarrow> \<not> P y"
  using hd_dropWhile[of P cs] by auto

lemma no_adjacent_newlines: "\<not> adjacent (\<lambda>c. c = LF) (collapse_newlines xs)"
proof (induction xs rule: collapse_newlines.induct)
  case 1
  show ?case by simp
next
  case (2 c cs)
  show ?case
  proof (cases "c = LF")
    case True
    let ?r = "collapse_newlines (dropWhile (\<lambda>x. x = LF) cs)"
    have ih: "\<not> adjacent (\<lambda>c. c = LF) ?r" using 2(1) True by simp
    show ?thesis
    proof (cases ?r)
      case Nil
      with True show ?thesis by simp
    next
      case (Cons y ys)
      then obtain zs where "dropWhile (\<lambda>x. x = LF) cs = y # zs"
        using collapse_newlines_hd by blast
      then have "y \<noteq> LF" using dropWhile_hd_not[of "\<lambda>x. x = LF" cs y zs] by simp
      with ih Cons True show ?thesis by simp
    qed
  next
    case False
    then have ih: "\<not> adjacent (\<lambda>c. c = LF) (collapse_newlines cs)" using 2(2) by simp
    show ?thesis using False ih by (cases "collapse_newlines cs") auto
  qed
qed

lemma collapse_blanks_hd:
  "collapse_blanks xs = y # ys \<Longrightarrow> \<exists>z zs. xs = z # zs \<and> (if blank z then y = SP else y = z)"
  by (cases xs) (auto split: if_splits)

lemma collapse_blanks_no_blank_hd:
  "collapse_blanks (dropWhile blank cs) = y # ys \<Longrightarrow> \<not> blank y"
proof -
  assume a: "collapse_blanks (dropWhile blank cs) = y # ys"
  then obtain z zs where z: "dropWhile blank cs = z # zs" "if blank z then y = SP else y = z"
    using collapse_blanks_hd by blast
  from z(1) have "\<not> blank z" by (rule dropWhile_hd_not)
  with z(2) show ?thesis by simp
qed

lemma no_adjacent_blanks: "\<not> adjacent blank (collapse_blanks xs)"
proof (induction xs rule: collapse_blanks.induct)
  case 1
  show ?case by simp
next
  case (2 c cs)
  show ?case
  proof (cases "blank c")
    case True
    let ?r = "collapse_blanks (dropWhile blank cs)"
    have ih: "\<not> adjacent blank ?r" using 2(1) True by simp
    show ?thesis
    proof (cases ?r)
      case Nil
      with True show ?thesis by simp
    next
      case (Cons y ys)
      then have "\<not> blank y" by (rule collapse_blanks_no_blank_hd)
      with ih Cons True show ?thesis by simp
    qed
  next
    case False
    then have ih: "\<not> adjacent blank (collapse_blanks cs)" using 2(2) by simp
    show ?thesis using False ih by (cases "collapse_blanks cs") auto
  qed
qed

lemma adjacent_Cons: "adjacent P ys \<Longrightarrow> adjacent P (a # ys)"
  by (cases ys) auto

lemma adjacent_append_left: "adjacent P ys \<Longrightarrow> adjacent P (us @ ys)"
  by (induction us) (auto intro: adjacent_Cons)

lemma adjacent_append_right: "adjacent P ys \<Longrightarrow> adjacent P (ys @ vs)"
  by (induction P ys rule: adjacent.induct) auto

lemma adjacent_dropWhile: "adjacent P (dropWhile Q xs) \<Longrightarrow> adjacent P xs"
  using adjacent_append_left[of P "dropWhile Q xs" "takeWhile Q xs"] by simp

lemma collapse_blanks_keeps_newlines_apart:
  "\<not> adjacent (\<lambda>c. c = LF) xs \<Longrightarrow> \<not> adjacent (\<lambda>c. c = LF) (collapse_blanks xs)"
proof (induction xs rule: collapse_blanks.induct)
  case 1
  show ?case by simp
next
  case (2 c cs)
  have tl: "\<not> adjacent (\<lambda>c. c = LF) cs" using 2(3) adjacent_Cons[of "\<lambda>c. c = LF" cs c] by auto
  show ?case
  proof (cases "blank c")
    case True
    have "\<not> adjacent (\<lambda>c. c = LF) (dropWhile blank cs)"
      using tl adjacent_dropWhile[of "\<lambda>c. c = LF" blank cs] by auto
    then have "\<not> adjacent (\<lambda>c. c = LF) (collapse_blanks (dropWhile blank cs))"
      using 2(1) True by simp
    then show ?thesis using True
      by (cases "collapse_blanks (dropWhile blank cs)") (auto simp: blank_def)
  next
    case False
    have ih: "\<not> adjacent (\<lambda>c. c = LF) (collapse_blanks cs)" using 2(2) False tl by simp
    show ?thesis
    proof (cases "collapse_blanks cs")
      case Nil
      with False show ?thesis by simp
    next
      case (Cons y ys)
      then obtain z zs where z: "cs = z # zs" "if blank z then y = SP else y = z"
        using collapse_blanks_hd by blast
      have "\<not> (c = LF \<and> y = LF)"
      proof
        assume h: "c = LF \<and> y = LF"
        with z(2) have "z = LF" by (auto simp: blank_def split: if_splits)
        with h z(1) 2(3) show False by simp
      qed
      with ih Cons False show ?thesis by simp
    qed
  qed
qed

lemma py_strip_infix: "\<exists>us vs. s = us @ py_strip s @ vs"
proof -
  let ?d = "dropWhile is_space s"
  define vs where "vs = rev (takeWhile is_space (rev ?d))"
  have "py_strip s @ vs = rev (takeWhile is_space (rev ?d) @ dropWhile is_space (rev ?d))"
    by (simp only: py_strip_def rev_append vs_def)
  also have "\<dots> = rev (rev ?d)" by (simp only: takeWhile_dropWhile_id)
  also have "\<dots> = ?d" by (simp only: rev_rev_ident)
  finally have d: "py_strip s @ vs = ?d" .
  have "s = takeWhile is_space s @ ?d" by simp
  also have "\<dots> = takeWhile is_space s @ py_strip s @ vs" by (simp only: d)
  finally show ?thesis by blast
qed

lemma adjacent_py_strip: "adjacent P (py_strip s) \<Longrightarrow> adjacent P s"
proof -
  assume a: "adjacent P (py_strip s)"
  obtain us vs where s: "s = us @ py_strip s @ vs" using py_strip_infix by blast
  have "adjacent P (us @ py_strip s @ vs)"
    using a by (intro adjacent_append_left adjacent_append_right)
  with s show ?thesis by simp
qed

lemma last_dropWhile: "dropWhile P xs \<noteq> [] \<Longrightarrow> last (dropWhile P xs) = last xs"
  by (induction xs) auto

lemma py_strip_ends:
  assumes "py_strip s \<noteq> []"
  shows "\<not> is_space (hd (py_strip s))" and "\<not> is_space (last (py_strip s))"
proof -
  let ?d = "dropWhile is_space s"
  let ?x = "dropWhile is_space (rev ?d)"
  have x: "?x \<noteq> []" using assms by (simp add: py_strip_def)
  have d: "?d \<noteq> []"
  proof
    assume "?d = []"
    then have "?x = []" by (simp only: rev.simps dropWhile.simps)
    with x show False by (simp only: not_True_eq_False simp_thms)
  qed
  have "last (py_strip s) = hd ?x" using x by (simp add: py_strip_def last_rev)
  moreover have "\<not> is_space (hd ?x)" using x by (rule hd_dropWhile)
  ultimately show "\<not> is_space (last (py_strip s))" by simp
  have "hd (py_strip s) = last ?x" using x by (simp add: py_strip_def hd_rev)
  also have "\<dots> = last (rev ?d)"
    using x by (rule last_dropWhile)
  also have "\<dots> = hd ?d" using d by (simp add: last_rev)
  finally have "hd (py_strip s) = hd ?d" .
  moreover have "\<not> is_space (hd ?d)" using d by (rule hd_dropWhile)
  ultimately show "\<not> is_space (hd (py_strip s))" by simp
qed

lemma adjacent_iff_index:
  "adjacent P xs \<longleftrightarrow> (\<exists>i. Suc i < length xs \<and> P (xs ! i) \<and> P (xs ! Suc i))"
proof (induction P xs rule: adjacent.induct)
  case (1 P a b xs)
  show ?case
  proof
    assume "adjacent P (a # b # xs)"
    then consider "P a \<and> P b" | "adjacent P (b # xs)" by auto
    then show "\<exists>i. Suc i < length (a # b # xs) \<and> P ((a # b # xs) ! i) \<and> P ((a # b # xs) ! Suc i)"
    proof cases
      case 1
      then show ?thesis by (intro exI[of _ 0]) simp
    next
      case 2
      with 1 obtain i where "Suc i < length (b # xs)" "P ((b # xs) ! i)" "P ((b # xs) ! Suc i)"
        by blast
      then show ?thesis by (intro exI[of _ "Suc i"]) simp
    qed
  next
    assume "\<exists>i. Suc i < length (a # b # xs) \<and> P ((a # b # xs) ! i) \<and> P ((a # b # xs) ! Suc i)"
    then obtain i where i: "Suc i < length (a # b # xs)" "P ((a # b # xs) ! i)" "P ((a # b # xs) ! Suc i)"
      by blast
    show "adjacent P (a # b # xs)"
    proof (cases i)
      case 0
      with i show ?thesis by simp
    next
      case (Suc j)
      with i have "Suc j < length (b # xs) \<and> P ((b # xs) ! j) \<and> P ((b # xs) ! Suc j)" by simp
      with 1 show ?thesis by auto
    qed
  qed
qed auto

text \<open>
  Claim C7. Whatever the content, when sanitization in compact mode returns a text, the
  text has no two consecutive newline characters, no two consecutive characters that
  are a space or a tab, and neither starts nor ends with whitespace (it is not empty).
\<close>

theorem sanitize_compact_shape:
  assumes "sanitize_content room content True = Inr t"
  shows "\<not> adjacent (\<lambda>c. c = LF) t \<and> \<not> adjacent blank t
         \<and> t \<noteq> [] \<and> \<not> is_space (hd t) \<and> \<not> is_space (last t)"
proof -
  from assms obtain s where s: "content_str room content True = Inr s"
    by (auto simp: sanitize_content_def split: sum.splits)
  define u where "u = collapse_blanks (collapse_newlines (replace_cr (replace_crlf (strip_unprintable s))))"
  have t: "t = py_strip u" and ne: "py_strip t \<noteq> []"
    using assms s by (auto simp: sanitize_content_def clean_text_def u_def Let_def split: if_splits)
  have tne: "t \<noteq> []" using ne by (auto simp: py_strip_def)
  have "\<not> adjacent (\<lambda>c. c = LF) u"
    unfolding u_def by (intro collapse_blanks_keeps_newlines_apart no_adjacent_newlines)
  then have 1: "\<not> adjacent (\<lambda>c. c = LF) t"
    using t adjacent_py_strip[of "\<lambda>c. c = LF" u] by auto
  have "\<not> adjacent blank u" unfolding u_def by (rule no_adjacent_blanks)
  then have 2: "\<not> adjacent blank t"
    using t adjacent_py_strip[of blank u] by auto
  have 3: "\<not> is_space (hd t)" "\<not> is_space (last t)"
    using py_strip_ends[of u] t tne by auto
  from 1 2 3 tne show ?thesis by simp
qed

theorem sanitize_compact_shape_witness:
  "sanitize_content 1000
       (PStr (lit ''  a  b '' @ [LF, LF, LF, TAB, TAB] @ lit ''x'' @ [LF, SP, LF])) True
     = Inr (lit ''a b '' @ [LF] @ lit '' x'')
   \<and> \<not> adjacent (\<lambda>c. c = LF) (lit ''a b '' @ [LF] @ lit '' x'')
   \<and> \<not> adjacent blank (lit ''a b '' @ [LF] @ lit '' x'')
   \<and> lit ''a b '' @ [LF] @ lit '' x'' \<noteq> []
   \<and> \<not> is_space (hd (lit ''a b '' @ [LF] @ lit '' x''))
   \<and> \<not> is_space (last (lit ''a b '' @ [LF] @ lit '' x''))"
proof -
  have h: "sanitize_content 1000
             (PStr (lit ''  a  b '' @ [LF, LF, LF, TAB, TAB] @ lit ''x'' @ [LF, SP, LF])) True
           = Inr (lit ''a b '' @ [LF] @ lit '' x'')"
    by (simp add: sanitize_content_def clean_text_def lit_def strip_unprintable_def
        printable_def replace_cr_def blank_def py_strip_def is_space_def)
  from sanitize_compact_shape[OF h] h show ?thesis by simp
qed

subsection \<open>Line breaks\<close>

text \<open>
  Claim C2 (every CRLF and every lone CR of the input becomes an LF). The character
  class of the first substitution holds the tab and the newline but not the carriage
  return, so every CR is deleted before the two \<open>replace\<close> calls run, and they find
  nothing to replace. The text \<open>a\<close> CR \<open>b\<close> is sanitized to \<open>ab\<close>: the lone CR has
  become nothing, not an LF.
\<close>

theorem lone_cr_is_deleted:
  "sanitize_content room (PStr [97, CR, 98]) False = Inr [97, 98]"
  by (simp add: sanitize_content_def clean_text_def strip_unprintable_def printable_def
      replace_cr_def py_strip_def is_space_def)

section \<open>Properties of path validation\<close>

text \<open>
  Claim C6. \<open>_validate_path\<close> reports the first failing check in the order existence,
  expected kind, hidden rejection, readability, writability: its result is the one
  \<open>first_failing_check\<close> computes from the five independent checks. In particular a
  missing hidden path with \<open>must_exist\<close> set and \<open>allow_hidden\<close> unset fails with
  \<open>NotFound\<close>, not with \<open>HiddenRejected\<close>.
\<close>

theorem validate_path_first_failure:
  "validate_path fs p c = first_failing_check fs p c
   \<and> (must_exist c \<and> \<not> path_exists fs p \<and> \<not> allow_hidden c \<and> startswith_dot (name p)
        \<longrightarrow> validate_path fs p c = Inl (PathValidationError p NotFound))"
  by (simp add: validate_path_def first_failing_check_def)

theorem validate_path_first_failure_witness:
  "must_exist (default_constraints\<lparr>allow_hidden := False\<rparr>)
   \<and> \<not> path_exists [[] \<mapsto> Directory True True] [''.hidden'']
   \<and> \<not> allow_hidden (default_constraints\<lparr>allow_hidden := False\<rparr>)
   \<and> startswith_dot (name [''.hidden''])
   \<and> validate_path [[] \<mapsto> Directory True True] [''.hidden'']
        (default_constraints\<lparr>allow_hidden := False\<rparr>)
       = Inl (PathValidationError [''.hidden''] NotFound)
   \<and> first_failing_check [[] \<mapsto> Directory True True] [''.hidden'']
        (default_constraints\<lparr>allow_hidden := False\<rparr>)
       = Inl (PathValidationError [''.hidden''] NotFound)"
  using validate_path_first_failure[of "[[] \<mapsto> Directory True True]" "[''.hidden'']"
      "default_constraints\<lparr>allow_hidden := False\<rparr>"]
  by (auto simp: default_constraints_def path_exists_def startswith_dot_def name_def)

section \<open>Properties of \<open>delete_file\<close>\<close>

text \<open>
  A missing path fails validation whatever \<open>ignore_missing\<close> is; a regular file in a
  writable directory is removed and \<open>True\<close> returned; in a directory that is not
  writable the call fails with the permission error and removes nothing.
\<close>

lemma delete_file_missing:
  "\<not> path_exists fs p \<Longrightarrow>
   delete_file fs p ignore_missing = (Inl (PathValidationError p NotFound), fs)"
  by (simp add: delete_file_def delete_file_try_def validate_path_def)

lemma delete_file_regular:
  assumes "path_is_file fs p" "os_access_W fs (parent p)"
  shows "delete_file fs p ignore_missing = (Inr True, fs(p := None))"
proof -
  from assms(1) obtain d r w where f: "fs p = Some (RegularFile d r w)"
    by (auto simp: path_is_file_def split: option.splits entry.splits)
  with assms(2) show ?thesis
    by (simp add: delete_file_def delete_file_try_def validate_path_def path_exists_def
        path_is_file_def os_unlink_def)
qed

lemma delete_file_not_permitted:
  assumes "path_is_file fs p" "\<not> os_access_W fs (parent p)"
  shows "delete_file fs p ignore_missing = (Inl (PathValidationError p PermissionDenied), fs)"
proof -
  from assms(1) obtain d r w where f: "fs p = Some (RegularFile d r w)"
    by (auto simp: path_is_file_def split: option.splits entry.splits)
  with assms(2) show ?thesis
    by (simp add: delete_file_def delete_file_try_def validate_path_def path_exists_def
        path_is_file_def os_unlink_def)
qed

text \<open>
  Claim C1 (a missing path with \<open>ignore_missing\<close> set gives \<open>False\<close> and no error).
  For a missing path \<open>_validate_path\<close> raises \<open>PathValidationError\<close>, which the
  \<open>except PathValidationError\<close> clause raises again; the clause that consults
  \<open>ignore_missing\<close> only catches \<open>FileNotFoundError\<close>. On a file system that holds
  the root directory alone, deleting \<open>missing.txt\<close> with \<open>ignore_missing\<close> set
  raises \<open>PathValidationError\<close> (path does not exist) instead of returning \<open>False\<close>.
\<close>

theorem delete_missing_ignore_raises:
  "delete_file [[] \<mapsto> Directory True True] [''missing.txt''] True
     = (Inl (PathValidationError [''missing.txt''] NotFound), [[] \<mapsto> Directory True True])"
  by (simp add: delete_file_def delete_file_try_def validate_path_def path_exists_def)

text \<open>
  Claim C8. Deleting a path that is a directory fails with the wrong-kind
  \<open>PathValidationError\<close> whatever \<open>ignore_missing\<close> is, and leaves the file system as
  it was.
\<close>

theorem delete_directory_fails:
  assumes "path_is_dir fs p"
  shows "delete_file fs p ignore_missing = (Inl (PathValidationError p WrongKind), fs)"
proof -
  from assms have "path_exists fs p" and "\<not> path_is_file fs p"
    by (auto simp: path_is_dir_def path_exists_def path_is_file_def split: option.splits entry.splits)
  then show ?thesis
    by (simp add: delete_file_def delete_file_try_def validate_path_def)
qed

theorem delete_directory_fails_witness:
  "path_is_dir [[] \<mapsto> Directory True True, [''d''] \<mapsto> Directory True True] [''d'']
   \<and> delete_file [[] \<mapsto> Directory True True, [''d''] \<mapsto> Directory True True] [''d''] True
       = (Inl (PathValidationError [''d''] WrongKind),
          [[] \<mapsto> Directory True True, [''d''] \<mapsto> Directory True True])
   \<and> delete_file [[] \<mapsto> Directory True True, [''d''] \<mapsto> Directory True True] [''d''] False
       = (Inl (PathValidationError [''d''] WrongKind),
          [[] \<mapsto> Directory True True, [''d''] \<mapsto> Directory True True])"
proof -
  have h: "path_is_dir [[] \<mapsto> Directory True True, [''d''] \<mapsto> Directory True True] [''d'']"
    by (simp add: path_is_dir_def)
  from delete_directory_fails[OF h, of True] delete_directory_fails[OF h, of False] h
  show ?thesis by simp
qed

section \<open>Properties of \<open>read_file\<close>\<close>

text \<open>
  A missing file and an unreadable file are reported by \<open>_validate_path\<close>; bytes the
  codec cannot decode end in \<open>TypeError\<close>, for any file and codec.
\<close>

lemma read_file_missing:
  "\<not> path_exists fs p \<Longrightarrow>
   read_file fs p as_bytes enc = Inl (PathValidationError p NotFound)"
  by (simp add: read_file_def read_file_try_def validate_path_def)

lemma read_file_unreadable:
  "path_is_file fs p \<Longrightarrow> \<not> os_access_R fs p \<Longrightarrow>
   read_file fs p as_bytes enc = Inl (PathValidationError p NotReadable)"
  by (auto simp: read_file_def read_file_try_def validate_path_def path_exists_def
      path_is_file_def startswith_dot_def split: option.splits)

lemma read_file_undecodable:
  assumes "fs p = Some (RegularFile data True w)" "decode enc data = Inl UnicodeDecodeError"
  shows "read_file fs p False enc = Inl (TypeError WrongArgumentCount)"
  using assms
  by (simp add: read_file_def read_file_try_def validate_path_def path_exists_def
      path_is_file_def os_access_R_def read_text_def read_bytes_def new_UnicodeDecodeError_def)

text \<open>
  Claim C4 (undecodable bytes give a decode error). The clause that catches
  \<open>UnicodeDecodeError\<close> raises \<open>UnicodeDecodeError(message)\<close>, and that constructor
  call raises \<open>TypeError\<close> since it needs five arguments. Reading a file that holds
  the single byte \<open>0xFF\<close> as UTF-8 text therefore ends in \<open>TypeError\<close>.
\<close>

theorem read_undecodable_raises_type_error:
  "read_file [[] \<mapsto> Directory True True, [''data.bin''] \<mapsto> RegularFile [CHR 0xFF] True True]
     [''data.bin''] False Utf8
   = Inl (TypeError WrongArgumentCount)"
  by (simp add: read_file_def read_file_try_def validate_path_def path_exists_def
      path_is_file_def os_access_R_def read_text_def read_bytes_def utf8_decode.simps
      new_UnicodeDecodeError_def)

section \<open>Facts about the file system\<close>

lemma ancestors_Nil [simp]: "ancestors [] = []"
  by (simp add: ancestors_def)

lemma ancestors_snoc [simp]: "ancestors (q @ [x]) = ancestors q @ [q]"
  by (simp add: ancestors_def)

lemma parent_snoc [simp]: "parent (q @ [x]) = q"
  by (simp add: parent_def)

lemma parent_Nil [simp]: "parent [] = []"
  by (simp add: parent_def)

lemma ancestors_shorter: "a \<in> set (ancestors p) \<Longrightarrow> length a < length p"
  by (auto simp: ancestors_def)

lemma under_file_Nil [simp]: "\<not> under_file fs []"
  by (simp add: under_file_def)

lemma under_file_snoc [simp]:
  "under_file fs (q @ [x]) \<longleftrightarrow> under_file fs q \<or> path_is_file fs q"
  by (auto simp: under_file_def list_ex_iff)

lemma file_not_dir: "path_is_dir fs p \<Longrightarrow> \<not> path_is_file fs p"
  by (auto simp: path_is_dir_def path_is_file_def split: option.splits entry.splits)

lemma dir_exists: "path_is_dir fs p \<Longrightarrow> path_exists fs p"
  by (auto simp: path_is_dir_def path_exists_def split: option.splits)

lemma exists_cases: "path_exists fs p \<Longrightarrow> path_is_dir fs p \<or> path_is_file fs p"
  by (auto simp: path_is_dir_def path_exists_def path_is_file_def split: option.splits entry.splits)

lemma well_formed_ancestors:
  "well_formed fs \<Longrightarrow> path_exists fs p \<Longrightarrow> a \<in> set (ancestors p) \<Longrightarrow> path_is_dir fs a"
proof (induction p arbitrary: a rule: rev_induct)
  case Nil
  then show ?case by simp
next
  case (snoc x q)
  from snoc.prems(1,2) have q: "path_is_dir fs q"
    by (auto simp: well_formed_def)
  show ?case
  proof (cases "a = q")
    case True
    with q show ?thesis by simp
  next
    case False
    with snoc.prems(3) have "a \<in> set (ancestors q)" by simp
    with snoc.IH[OF snoc.prems(1) dir_exists[OF q]] show ?thesis by blast
  qed
qed

lemma with_directories_existing:
  assumes "well_formed fs" "path_exists fs d"
  shows "with_directories fs d = fs"
proof
  fix q
  show "with_directories fs d q = fs q"
  proof (cases "fs q = None \<and> q \<in> set (ancestors d @ [d])")
    case True
    then have "q = d \<or> q \<in> set (ancestors d)" by auto
    then have "path_exists fs q"
      using assms well_formed_ancestors[OF assms, of q] dir_exists by auto
    with True show ?thesis by (simp add: path_exists_def)
  next
    case False
    then show ?thesis by (auto simp: with_directories_def)
  qed
qed

lemma with_directories_snoc:
  assumes "fs (q @ [x]) = None"
  shows "with_directories fs (q @ [x]) = (with_directories fs q)(q @ [x] \<mapsto> Directory True True)"
proof
  fix r
  show "with_directories fs (q @ [x]) r = ((with_directories fs q)(q @ [x] \<mapsto> Directory True True)) r"
    using assms by (auto simp: with_directories_def)
qed

lemma with_directories_dir:
  "\<not> path_is_file fs a \<Longrightarrow> a \<in> set (ancestors d @ [d]) \<Longrightarrow> path_is_dir (with_directories fs d) a"
  by (auto simp: with_directories_def path_is_dir_def path_is_file_def split: option.splits entry.splits)

lemma with_directories_not_file:
  "\<not> path_is_file fs a \<Longrightarrow> \<not> path_is_file (with_directories fs d) a"
  by (auto simp: with_directories_def path_is_file_def split: option.splits entry.splits)

lemma with_directories_longer:
  "length d < length r \<Longrightarrow> with_directories fs d r = fs r"
  using ancestors_shorter[of r d] by (auto simp: with_directories_def)

lemma under_file_with_directories:
  "\<not> under_file fs p \<Longrightarrow> \<not> under_file (with_directories fs d) p"
  by (auto simp: under_file_def list_ex_iff with_directories_not_file)

lemma nearest_ancestor_Nil [simp]: "nearest_ancestor fs [] = []"
  by (simp add: nearest_ancestor_def)

lemma nearest_ancestor_snoc:
  "nearest_ancestor fs (q @ [x]) = (if path_exists fs q then q else nearest_ancestor fs q)"
  by (simp add: nearest_ancestor_def)

lemma with_directories_made:
  "fs d = None \<Longrightarrow> with_directories fs d d = Some (Directory True True)"
  by (simp add: with_directories_def)

lemma with_directories_kept: "fs q \<noteq> None \<Longrightarrow> with_directories fs d q = fs q"
  by (simp add: with_directories_def)

lemma with_directories_writable:
  assumes "os_access_W fs (nearest_ancestor fs (d @ [x]))"
  shows "os_access_W (with_directories fs d) d"
proof (cases "fs d")
  case None
  then show ?thesis by (simp add: os_access_W_def with_directories_made)
next
  case (Some e)
  then have "path_exists fs d" by (simp add: path_exists_def)
  with assms have "os_access_W fs d" by (simp add: nearest_ancestor_snoc)
  moreover from Some have "with_directories fs d d = fs d"
    by (intro with_directories_kept) simp
  ultimately show ?thesis by (simp add: os_access_W_def)
qed

text \<open>
  \<open>mkdir\<close> with \<open>parents\<close> makes every missing directory on the way when the deepest
  existing ancestor is writable, and makes nothing and raises \<open>PermissionError\<close> when
  it is not.
\<close>

lemma path_mkdir_creates:
  assumes "well_formed fs" "\<not> under_file fs p" "\<not> path_is_file fs p"
    "path_exists fs p \<or> os_access_W fs (nearest_ancestor fs p)"
  shows "path_mkdir fs p True True = (Inr (), with_directories fs p)"
  using assms
proof (induction p rule: rev_induct)
  case Nil
  then have "path_is_dir fs []" by (simp add: well_formed_def)
  then have "path_exists fs []" by (rule dir_exists)
  with Nil \<open>path_is_dir fs []\<close> show ?case
    by (simp add: path_mkdir.simps[of fs "[]"] os_mkdir_def with_directories_existing)
next
  case (snoc x q)
  let ?p = "q @ [x]"
  from snoc.prems have nq: "\<not> under_file fs q" "\<not> path_is_file fs q" by auto
  show ?case
  proof (cases "path_exists fs ?p")
    case True
    with snoc.prems(3) have "path_is_dir fs ?p" using exists_cases by blast
    with True snoc.prems(1) show ?thesis
      by (simp add: path_mkdir.simps[of fs ?p] os_mkdir_def with_directories_existing)
  next
    case False
    then have none: "fs ?p = None" by (simp add: path_exists_def)
    from False snoc.prems(4) have wr: "os_access_W fs (nearest_ancestor fs ?p)" by simp
    show ?thesis
    proof (cases "path_is_dir fs q")
      case True
      then have ex: "path_exists fs q" by (rule dir_exists)
      then have "with_directories fs q = fs"
        using snoc.prems(1) by (intro with_directories_existing) auto
      with with_directories_snoc[of fs q x] none
      have wd: "with_directories fs ?p = fs(?p \<mapsto> Directory True True)" by simp
      from wr ex have "os_access_W fs q" by (simp add: nearest_ancestor_snoc)
      then have "os_mkdir fs ?p = (Inr (), fs(?p \<mapsto> Directory True True))"
        using True False snoc.prems(2) by (simp add: os_mkdir_def)
      then have "path_mkdir fs ?p True True = (Inr (), fs(?p \<mapsto> Directory True True))"
        by (simp add: path_mkdir.simps[of fs ?p])
      then show ?thesis by (simp only: wd)
    next
      case nd: False
      with nq(2) have nex: "\<not> path_exists fs q" using exists_cases by blast
      with wr have "os_access_W fs (nearest_ancestor fs q)" by (simp add: nearest_ancestor_snoc)
      then have pq: "path_exists fs q \<or> os_access_W fs (nearest_ancestor fs q)" by simp
      let ?fs2 = "with_directories fs q"
      have ih: "path_mkdir fs q True True = (Inr (), ?fs2)"
        using snoc.IH[OF snoc.prems(1) nq pq] .
      have a: "\<not> path_exists ?fs2 ?p"
        using none by (simp add: path_exists_def with_directories_longer)
      have b: "\<not> under_file ?fs2 ?p"
        using snoc.prems(2) by (rule under_file_with_directories)
      have c: "path_is_dir ?fs2 q"
        using nq(2) by (intro with_directories_dir) auto
      have d: "os_access_W ?fs2 q"
        using wr by (rule with_directories_writable)
      have second: "path_mkdir ?fs2 ?p False True = (Inr (), ?fs2(?p \<mapsto> Directory True True))"
        using a b c d by (simp add: path_mkdir.simps[of ?fs2 ?p] os_mkdir_def)
      have first: "os_mkdir fs ?p = (Inl FileNotFoundError, fs)"
        using False snoc.prems(2) nd by (simp add: os_mkdir_def)
      have "path_mkdir fs ?p True True = (Inr (), ?fs2(?p \<mapsto> Directory True True))"
        using first ih second by (simp add: path_mkdir.simps[of fs ?p])
      moreover have "with_directories fs ?p = ?fs2(?p \<mapsto> Directory True True)"
        using with_directories_snoc[of fs q x] none by simp
      ultimately show ?thesis by (simp only:)
    qed
  qed
qed

lemma path_mkdir_refused:
  assumes "well_formed fs" "\<not> under_file fs p" "\<not> path_exists fs p"
    "\<not> os_access_W fs (nearest_ancestor fs p)"
  shows "path_mkdir fs p True True = (Inl PermissionError, fs)"
  using assms
proof (induction p rule: rev_induct)
  case Nil
  then have "path_exists fs []" by (auto simp: well_formed_def dir_exists)
  with Nil show ?case by simp
next
  case (snoc x q)
  let ?p = "q @ [x]"
  from snoc.prems have nq: "\<not> under_file fs q" "\<not> path_is_file fs q" by auto
  from snoc.prems(3) have nd: "\<not> path_is_dir fs ?p" using dir_exists by blast
  show ?case
  proof (cases "path_is_dir fs q")
    case True
    then have "path_exists fs q" by (rule dir_exists)
    with snoc.prems(4) have "\<not> os_access_W fs q" by (simp add: nearest_ancestor_snoc)
    then have "os_mkdir fs ?p = (Inl PermissionError, fs)"
      using True snoc.prems(2,3) by (simp add: os_mkdir_def)
    with nd show ?thesis by (simp add: path_mkdir.simps[of fs ?p])
  next
    case False
    with nq(2) have nex: "\<not> path_exists fs q" using exists_cases by blast
    with snoc.prems(4) have "\<not> os_access_W fs (nearest_ancestor fs q)"
      by (simp add: nearest_ancestor_snoc)
    from snoc.IH[OF snoc.prems(1) nq(1) nex this]
    have ih: "path_mkdir fs q True True = (Inl PermissionError, fs)" .
    have first: "os_mkdir fs ?p = (Inl FileNotFoundError, fs)"
      using False snoc.prems(2,3) by (simp add: os_mkdir_def)
    from first ih show ?thesis by (simp add: path_mkdir.simps[of fs ?p])
  qed
qed

lemma ensure_directory_creates:
  assumes "well_formed fs" "\<not> under_file fs d" "\<not> path_is_file fs d"
    "path_exists fs d \<or> os_access_W fs (nearest_ancestor fs d)"
  shows "ensure_directory fs d True True = (Inr d, with_directories fs d)"
proof (cases "path_exists fs d")
  case True
  with assms(3) have "path_is_dir fs d" using exists_cases by blast
  with True assms(1) show ?thesis
    by (simp add: ensure_directory_def with_directories_existing)
next
  case False
  with path_mkdir_creates[OF assms] show ?thesis
    by (simp add: ensure_directory_def)
qed

lemma ensure_directory_refused:
  assumes "well_formed fs" "\<not> under_file fs d" "\<not> path_exists fs d"
    "\<not> os_access_W fs (nearest_ancestor fs d)"
  shows "ensure_directory fs d True True = (Inl (PathValidationError d PermissionDenied), fs)"
  using path_mkdir_refused[OF assms] assms(3) by (simp add: ensure_directory_def)

lemma ensure_parent:
  assumes "well_formed fs" "\<not> under_file fs p"
    "path_exists fs (parent p) \<or> os_access_W fs (nearest_ancestor fs (parent p))"
  shows "ensure_directory fs (parent p) True True = (Inr (parent p), with_directories fs (parent p))"
proof (cases p rule: rev_cases)
  case Nil
  from assms(1) have d: "path_is_dir fs []" by (simp add: well_formed_def)
  then have "\<not> path_is_file fs []" by (rule file_not_dir)
  moreover from d have "path_exists fs []" by (rule dir_exists)
  ultimately show ?thesis using Nil assms(1) by (simp add: ensure_directory_creates)
next
  case (snoc q x)
  with assms show ?thesis by (simp add: ensure_directory_creates)
qed

lemma os_mkdir_frame: "os_mkdir fs p = (x, fs1) \<Longrightarrow> q \<noteq> p \<Longrightarrow> fs1 q = fs q"
  by (auto simp: os_mkdir_def split: if_splits)

lemma os_mkdir_error: "os_mkdir fs p = (Inl e, fs1) \<Longrightarrow> is_OSError e \<and> fs1 = fs"
  by (auto simp: os_mkdir_def is_OSError_def split: if_splits)

lemma parent_length: "length (parent p) \<le> length p"
  by (simp add: parent_def)

lemma path_mkdir_frame:
  "path_mkdir fs d ps eo = (r, fs') \<Longrightarrow> length d < length q \<Longrightarrow> fs' q = fs q"
proof (induction fs d ps eo arbitrary: r fs' rule: path_mkdir.induct)
  case (1 fs p parents exist_ok)
  obtain x fs1 where om: "os_mkdir fs p = (x, fs1)" by (cases "os_mkdir fs p")
  from "1.prems"(2) have "q \<noteq> p" by auto
  with om have fr1: "fs1 q = fs q" by (rule os_mkdir_frame)
  show ?case
  proof (cases x)
    case (Inr u)
    with om "1.prems"(1) have "fs' = fs1" by (simp add: path_mkdir.simps[of fs p])
    with fr1 show ?thesis by simp
  next
    case (Inl e)
    show ?thesis
    proof (cases "e = FileNotFoundError \<and> parents \<and> parent p \<noteq> p")
      case False
      with om Inl "1.prems"(1) have "fs' = fs1"
        by (auto simp: path_mkdir.simps[of fs p] split: if_splits)
      with fr1 show ?thesis by simp
    next
      case True
      obtain x2 fs2 where pm: "path_mkdir fs1 (parent p) True True = (x2, fs2)"
        by (cases "path_mkdir fs1 (parent p) True True")
      have lp: "length (parent p) < length q" using "1.prems"(2) parent_length[of p] by simp
      have fr2: "fs2 q = fs1 q"
        using "1.IH"(1)[OF om[symmetric] Inl _ _ pm lp] True by simp
      show ?thesis
      proof (cases x2)
        case l: (Inl e1)
        with om Inl True pm "1.prems"(1) have "fs' = fs2"
          by (simp add: path_mkdir.simps[of fs p])
        with fr1 fr2 show ?thesis by simp
      next
        case r2: (Inr u)
        with om Inl True pm "1.prems"(1) have last: "path_mkdir fs2 p False exist_ok = (r, fs')"
          by (simp add: path_mkdir.simps[of fs p])
        have "fs' q = fs2 q"
          using "1.IH"(2)[OF om[symmetric] Inl _ _ pm[symmetric] r2 last "1.prems"(2)] True by simp
        with fr1 fr2 show ?thesis by simp
      qed
    qed
  qed
qed

lemma path_mkdir_error:
  "path_mkdir fs d ps eo = (Inl e, fs') \<Longrightarrow> is_OSError e"
proof (induction fs d ps eo arbitrary: e fs' rule: path_mkdir.induct)
  case (1 fs p parents exist_ok)
  obtain x fs1 where om: "os_mkdir fs p = (x, fs1)" by (cases "os_mkdir fs p")
  show ?case
  proof (cases x)
    case (Inr u)
    with om "1.prems" show ?thesis by (simp add: path_mkdir.simps[of fs p])
  next
    case (Inl e0)
    with om have os: "is_OSError e0" using os_mkdir_error by blast
    show ?thesis
    proof (cases "e0 = FileNotFoundError \<and> parents \<and> parent p \<noteq> p")
      case False
      with om Inl "1.prems" os show ?thesis
        by (auto simp: path_mkdir.simps[of fs p] split: if_splits)
    next
      case True
      obtain x2 fs2 where pm: "path_mkdir fs1 (parent p) True True = (x2, fs2)"
        by (cases "path_mkdir fs1 (parent p) True True")
      show ?thesis
      proof (cases x2)
        case l: (Inl e1)
        have "is_OSError e1"
          using "1.IH"(1)[OF om[symmetric] Inl _ _ pm[unfolded l]] True by simp
        moreover from om Inl True pm l "1.prems" have "e = e1"
          by (simp add: path_mkdir.simps[of fs p])
        ultimately show ?thesis by simp
      next
        case r2: (Inr u)
        with om Inl True pm "1.prems" have last: "path_mkdir fs2 p False exist_ok = (Inl e, fs')"
          by (simp add: path_mkdir.simps[of fs p])
        show ?thesis
          using "1.IH"(2)[OF om[symmetric] Inl _ _ pm[symmetric] r2 last] True by simp
      qed
    qed
  qed
qed

lemma path_mkdir_root: "\<exists>r. path_mkdir fs [] ps eo = (r, fs)"
  by (auto simp: path_mkdir.simps[of fs "[]"] os_mkdir_def path_is_dir_def path_exists_def
      split: option.splits)

lemma ensure_directory_frame:
  assumes "ensure_directory fs (parent p) cm eo = (r, fs')"
  shows "fs' p = fs p"
proof (cases "p = []")
  case True
  obtain r0 where "path_mkdir fs [] True eo = (r0, fs)" using path_mkdir_root by blast
  with assms True show ?thesis
    by (auto simp: ensure_directory_def split: if_splits sum.splits)
next
  case False
  then have lp: "length (parent p) < length p" by (cases p rule: rev_cases) auto
  obtain x fs1 where pm: "path_mkdir fs (parent p) True eo = (x, fs1)"
    by (cases "path_mkdir fs (parent p) True eo")
  from path_mkdir_frame[OF pm lp] have "fs1 p = fs p" .
  with assms pm show ?thesis
    by (auto simp: ensure_directory_def split: if_splits sum.splits)
qed

lemma ensure_directory_error:
  assumes "ensure_directory fs d cm eo = (Inl e, fs')"
  shows "\<exists>r. e = PathValidationError d r \<and> (eo \<longrightarrow> r \<noteq> AlreadyExists)"
proof -
  obtain x fs1 where pm: "path_mkdir fs d True eo = (x, fs1)"
    by (cases "path_mkdir fs d True eo")
  show ?thesis
  proof (cases x)
    case (Inl e0)
    with pm have "is_OSError e0" using path_mkdir_error by blast
    with assms pm Inl show ?thesis
      by (auto simp: ensure_directory_def split: if_splits)
  next
    case (Inr u)
    with assms pm show ?thesis
      by (auto simp: ensure_directory_def split: if_splits)
  qed
qed

subsection \<open>What the sanitizer returns\<close>

lemma content_str_error:
  "content_str room v c = Inl e \<Longrightarrow> e = ValueError IntegerTooLong \<or> (\<exists>t. e = TypeError t)"
  by (cases v) (auto split: option.splits)

lemma sanitize_content_error:
  "sanitize_content room v c = Inl e \<Longrightarrow> (\<exists>k. e = ValueError k) \<or> (\<exists>t. e = TypeError t)"
  by (auto simp: sanitize_content_def Let_def split: sum.splits if_splits dest: content_str_error)

lemma create_file_except_sanitize:
  "sanitize_content room v c = Inl e \<Longrightarrow> create_file_except p e = e"
  by (auto dest!: sanitize_content_error)

text \<open>
  The limits of the interpreter: an integer of more than 4300 digits is a \<open>ValueError\<close>
  as content and a \<open>TypeError\<close> inside a list, and so is a structure nested deeper
  than the encoder has room for.
\<close>

lemma sanitize_long_integer:
  assumes "int_max_str_digits < length (str_nat (nat \<bar>i\<bar>))"
  shows "sanitize_content room (PInt i) compact = Inl (ValueError IntegerTooLong)"
    and "sanitize_content room (PList [PInt i]) compact = Inl (TypeError JsonConversionFailed)"
  using assms by (simp_all add: sanitize_content_def str_int_def json_dumps_def)

lemma sanitize_too_deep:
  "sanitize_content 1 (PList [PList []]) compact = Inl (TypeError JsonConversionFailed)"
  by (simp add: sanitize_content_def json_dumps_def)

lemma set_replace_crlf: "set (replace_crlf s) \<subseteq> insert LF (set s)"
  by (induction s rule: replace_crlf.induct) auto

lemma set_collapse_newlines: "set (collapse_newlines s) \<subseteq> set s"
proof (induction s rule: collapse_newlines.induct)
  case 1
  show ?case by simp
next
  case (2 c cs)
  have "set (dropWhile (\<lambda>x. x = LF) cs) \<subseteq> set cs" by (rule set_dropWhileD[THEN subsetI])
  with 2 show ?case by (cases "c = LF") auto
qed

lemma set_collapse_blanks: "set (collapse_blanks s) \<subseteq> insert SP (set s)"
proof (induction s rule: collapse_blanks.induct)
  case 1
  show ?case by simp
next
  case (2 c cs)
  have "set (dropWhile blank cs) \<subseteq> set cs" by (rule set_dropWhileD[THEN subsetI])
  with 2 show ?case by (cases "blank c") auto
qed

lemma set_py_strip: "set (py_strip s) \<subseteq> set s"
proof -
  obtain us vs where "s = us @ py_strip s @ vs" using py_strip_infix by blast
  then have "set s = set us \<union> set (py_strip s) \<union> set vs" by (metis set_append Un_assoc)
  then show ?thesis by auto
qed

lemma clean_text_printable: "x \<in> set (clean_text c s) \<Longrightarrow> printable x"
proof -
  let ?s1 = "strip_unprintable s"
  let ?s2 = "replace_cr (replace_crlf ?s1)"
  have p1: "\<And>y. y \<in> set ?s1 \<Longrightarrow> printable y" by (simp add: strip_unprintable_def)
  have p2: "\<And>y. y \<in> set ?s2 \<Longrightarrow> printable y"
  proof -
    fix y assume "y \<in> set ?s2"
    then obtain z where z: "z \<in> set (replace_crlf ?s1)" "y = (if z = CR then LF else z)"
      by (auto simp: replace_cr_def)
    from z(1) set_replace_crlf[of ?s1] have "z = LF \<or> z \<in> set ?s1" by auto
    with p1 have "printable z" by (auto simp: printable_def)
    with z(2) show "printable y" by (auto simp: printable_def)
  qed
  assume x: "x \<in> set (clean_text c s)"
  show ?thesis
  proof (cases c)
    case False
    with x p2 show ?thesis by (simp add: clean_text_def Let_def)
  next
    case True
    with x have "x \<in> set (py_strip (collapse_blanks (collapse_newlines ?s2)))"
      by (simp add: clean_text_def Let_def)
    then have "x \<in> set (collapse_blanks (collapse_newlines ?s2))" using set_py_strip by blast
    then have "x = SP \<or> x \<in> set (collapse_newlines ?s2)" using set_collapse_blanks by blast
    then have "x = SP \<or> x \<in> set ?s2" using set_collapse_newlines by blast
    with p2 show ?thesis by (auto simp: printable_def)
  qed
qed

lemma sanitize_content_printable:
  assumes "sanitize_content room v c = Inr t"
  shows "t \<noteq> []" and "\<And>x. x \<in> set t \<Longrightarrow> printable x"
proof -
  from assms obtain s where t: "t = clean_text c s" and ne: "py_strip t \<noteq> []"
    by (auto simp: sanitize_content_def Let_def split: sum.splits if_splits)
  from ne show "t \<noteq> []" by (auto simp: py_strip_def)
  fix x assume "x \<in> set t"
  with t show "printable x" using clean_text_printable by blast
qed

subsection \<open>Codecs on sanitized text\<close>

lemma printable_ascii: "printable x \<Longrightarrow> x < 128"
  by (auto simp: printable_def)

lemma printable_not_cr: "printable x \<Longrightarrow> x \<noteq> CR"
  by (auto simp: printable_def)

lemma sanitize_content_no_cr: "sanitize_content room v c = Inr t \<Longrightarrow> CR \<notin> set t"
  using sanitize_content_printable(2)[of room v c t] printable_not_cr by blast

lemma utf8_encode_ascii: "\<forall>x\<in>set s. x < 128 \<Longrightarrow> utf8_encode s = Some (map char_of s)"
  by (induction s) (auto simp: utf8_encode_char_def)

lemma encode_ascii:
  "enc \<noteq> UnknownCodec \<Longrightarrow> \<forall>x\<in>set s. x < 128 \<Longrightarrow> encode enc s = Inr (map char_of s)"
  by (cases enc) (auto simp: utf8_encode_ascii list_all_iff)

lemma utf8_decode_ascii: "\<forall>x\<in>set s. x < 128 \<Longrightarrow> utf8_decode (map char_of s) = Some s"
proof (induction s)
  case Nil
  show ?case by (simp add: utf8_decode.simps)
next
  case (Cons c cs)
  then have c: "c < 128" and ih: "utf8_decode (map char_of cs) = Some cs" by auto
  from c have cm: "c mod 256 = c" by simp
  have "utf8_next (char_of c # map char_of cs) = Some (c, map char_of cs)"
    using c by (simp add: Let_def cm)
  with ih show ?case
    by (simp add: utf8_decode.simps[of "char_of c # map char_of cs"])
qed

lemma decode_ascii:
  assumes "enc \<noteq> UnknownCodec" "\<forall>x\<in>set s. x < 128"
  shows "decode enc (map char_of s) = Inr s"
proof -
  have m: "map (of_char :: char \<Rightarrow> nat) (map char_of s) = s"
    using assms(2) by (induction s) auto
  have a: "list_all (\<lambda>b. (of_char b :: nat) < 128) (map char_of s)"
    using assms(2) by (induction s) auto
  from assms(1) show ?thesis
    by (cases enc) (simp_all add: utf8_decode_ascii[OF assms(2)] m a del: map_map)
qed

lemma replace_crlf_no_cr: "CR \<notin> set s \<Longrightarrow> replace_crlf s = s"
  by (induction s rule: replace_crlf.induct) auto

lemma replace_cr_no_cr: "CR \<notin> set s \<Longrightarrow> replace_cr s = s"
  by (induction s) (auto simp: replace_cr_def)

lemma encode_nonempty: "encode enc s = Inr data \<Longrightarrow> s \<noteq> [] \<Longrightarrow> data \<noteq> []"
  by (cases enc; cases s)
     (auto simp: utf8_encode_char_def split: option.splits if_splits)

lemma write_text_new:
  assumes "\<not> path_exists fs p" "\<not> under_file fs p" "path_is_dir fs (parent p)"
    "os_access_W fs (parent p)" "encode enc s = Inr data"
  shows "write_text fs p s enc = (Inr (), fs(p \<mapsto> RegularFile data True True))"
  using assms
  by (auto simp: write_text_def open_w_def put_bytes_def path_exists_def)

lemma write_text_result:
  assumes "write_text fs p s enc = (Inr u, fs')"
  shows "\<exists>data r w. encode enc s = Inr data \<and> fs' p = Some (RegularFile data r w)
           \<and> (fs p = None \<longrightarrow> r)"
  using assms
  by (fastforce simp: write_text_def open_w_def put_bytes_def
      split: option.splits entry.splits if_splits sum.splits)

lemma write_text_error_not_exists:
  assumes "write_text fs p s enc = (Inl e, fs')"
  shows "create_file_except p e \<noteq> PathValidationError q AlreadyExists"
  using assms
  by (cases enc; cases e)
     (auto simp: write_text_def open_w_def split: option.splits entry.splits if_splits sum.splits)

section \<open>Properties of \<open>create_file\<close>\<close>

lemma ancestors_parent: "a \<in> set (ancestors p) \<Longrightarrow> a \<in> set (ancestors (parent p) @ [parent p])"
  by (cases p rule: rev_cases) auto

lemma under_file_ancestor: "\<not> under_file fs p \<Longrightarrow> a \<in> set (ancestors p) \<Longrightarrow> \<not> path_is_file fs a"
  by (auto simp: under_file_def list_ex_iff)

lemma with_directories_target:
  assumes "well_formed fs"
  shows "with_directories fs (parent p) p = fs p"
proof (cases p rule: rev_cases)
  case Nil
  from assms have "path_exists fs []" by (auto simp: well_formed_def dir_exists)
  with Nil show ?thesis by (simp add: with_directories_def path_exists_def)
next
  case (snoc q x)
  then show ?thesis by (simp add: with_directories_longer)
qed

lemma parent_not_under_file: "\<not> under_file fs p \<Longrightarrow> \<not> under_file fs (parent p)"
  by (cases p rule: rev_cases) auto

lemma create_file_try_sanitize_fails:
  assumes "well_formed fs" "\<not> under_file fs p" "path_exists fs p \<longrightarrow> overwrite"
    "path_exists fs (parent p) \<or> os_access_W fs (nearest_ancestor fs (parent p))"
    "sanitize_content room content compact = Inl e"
  shows "create_file_try room fs p content overwrite compact enc
         = (Inl e, with_directories fs (parent p))"
  using assms ensure_parent[OF assms(1,2,4)]
  by (auto simp: create_file_try_def)

text \<open>
  When the parent directory is missing and the deepest existing ancestor is not
  writable, the call fails with the permission error of \<open>_ensure_directory\<close> before
  the content is looked at, and makes nothing.
\<close>

lemma create_file_directory_refused:
  assumes "well_formed fs" "\<not> under_file fs p" "\<not> path_exists fs (parent p)"
    "\<not> os_access_W fs (nearest_ancestor fs (parent p))"
  shows "create_file room fs p content overwrite compact enc
         = (Inl (PathValidationError (parent p) PermissionDenied), fs)"
proof -
  have "\<not> path_exists fs p"
  proof
    assume e: "path_exists fs p"
    show False
    proof (cases "p = []")
      case True
      with e assms(3) show False by simp
    next
      case False
      with e assms(1) have "path_is_dir fs (parent p)" by (auto simp: well_formed_def)
      with assms(3) show False using dir_exists by blast
    qed
  qed
  moreover have "ensure_directory fs (parent p) True True
                 = (Inl (PathValidationError (parent p) PermissionDenied), fs)"
    using assms(1) parent_not_under_file[OF assms(2)] assms(3,4)
    by (rule ensure_directory_refused)
  ultimately show ?thesis by (simp add: create_file_def create_file_try_def)
qed

text \<open>
  Claim C10. \<open>create_file\<close> makes the parent directory, with every missing ancestor,
  before it sanitizes the content. Take a tree-shaped file system where no ancestor of
  the target is a regular file, a call that the overwrite guard lets through, and a
  parent directory that exists or can be made (the deepest existing ancestor is
  writable). Then a content that the sanitizer rejects (\<open>TypeError\<close> for an
  unsupported type, for bytes that are not UTF-8 or for a structure JSON cannot hold;
  \<open>ValueError\<close> for an empty result or for an integer too long to print) makes the
  call fail with that very error, and the file system it leaves behind is the old one
  with the missing ancestors created: every ancestor of the target is a directory, and
  the target itself is as it was.
\<close>

theorem create_file_leaves_directories:
  assumes "well_formed fs" and "\<not> under_file fs p" and "path_exists fs p \<longrightarrow> overwrite"
    and "path_exists fs (parent p) \<or> os_access_W fs (nearest_ancestor fs (parent p))"
    and "sanitize_content room content compact = Inl e"
  shows "create_file room fs p content overwrite compact enc
           = (Inl e, with_directories fs (parent p))
         \<and> (\<forall>a \<in> set (ancestors p). path_is_dir (with_directories fs (parent p)) a)
         \<and> with_directories fs (parent p) p = fs p"
proof -
  have 1: "create_file room fs p content overwrite compact enc
           = (Inl e, with_directories fs (parent p))"
    using create_file_try_sanitize_fails[OF assms] create_file_except_sanitize[OF assms(5)]
    by (simp add: create_file_def)
  have 2: "\<forall>a \<in> set (ancestors p). path_is_dir (with_directories fs (parent p)) a"
  proof
    fix a assume a: "a \<in> set (ancestors p)"
    with assms(2) have "\<not> path_is_file fs a" by (rule under_file_ancestor)
    then show "path_is_dir (with_directories fs (parent p)) a"
      using ancestors_parent[OF a] by (rule with_directories_dir)
  qed
  from 1 2 with_directories_target[OF assms(1)] show ?thesis by simp
qed

lemma well_formed_root_only: "well_formed [[] \<mapsto> Directory True True]"
  by (auto simp: well_formed_def path_is_dir_def path_exists_def split: if_splits)

lemma ancestors_1: "ancestors [a] = [[]]"
  using ancestors_snoc[of "[]" a] by simp

lemma ancestors_2: "ancestors [a, b] = [[], [a]]"
  using ancestors_snoc[of "[a]" b] ancestors_snoc[of "[]" a] by simp

lemma ancestors_3: "ancestors [a, b, c] = [[], [a], [a, b]]"
  using ancestors_snoc[of "[a, b]" c] ancestors_snoc[of "[a]" b] ancestors_snoc[of "[]" a]
  by simp

theorem create_file_leaves_directories_witness:
  "well_formed [[] \<mapsto> Directory True True]
   \<and> \<not> under_file [[] \<mapsto> Directory True True] [''a'', ''b'', ''f.txt'']
   \<and> \<not> path_exists [[] \<mapsto> Directory True True] [''a'']
   \<and> \<not> path_exists [[] \<mapsto> Directory True True] [''a'', ''b'']
   \<and> nearest_ancestor [[] \<mapsto> Directory True True] (parent [''a'', ''b'', ''f.txt'']) = []
   \<and> os_access_W [[] \<mapsto> Directory True True] []
   \<and> sanitize_content 1000 PObject False = Inl (TypeError UnsupportedType)
   \<and> fst (create_file 1000 [[] \<mapsto> Directory True True] [''a'', ''b'', ''f.txt''] PObject
             True False Utf8)
       = Inl (TypeError UnsupportedType)
   \<and> path_is_dir
        (snd (create_file 1000 [[] \<mapsto> Directory True True] [''a'', ''b'', ''f.txt''] PObject
                True False Utf8))
        [''a'']
   \<and> path_is_dir
        (snd (create_file 1000 [[] \<mapsto> Directory True True] [''a'', ''b'', ''f.txt''] PObject
                True False Utf8))
        [''a'', ''b'']
   \<and> \<not> path_exists
        (snd (create_file 1000 [[] \<mapsto> Directory True True] [''a'', ''b'', ''f.txt''] PObject
                True False Utf8))
        [''a'', ''b'', ''f.txt'']"
proof -
  let ?fs = "[[] \<mapsto> Directory True True]"
  let ?p = "[''a'', ''b'', ''f.txt'']"
  have h1: "well_formed ?fs" by (rule well_formed_root_only)
  have h2: "\<not> under_file ?fs ?p"
    by (simp add: under_file_def ancestors_3 path_is_file_def)
  have h3: "path_exists ?fs ?p \<longrightarrow> True" by simp
  have n: "nearest_ancestor ?fs (parent ?p) = []"
    by (simp add: nearest_ancestor_def parent_def ancestors_2 path_exists_def)
  have w: "os_access_W ?fs []" by (simp add: os_access_W_def)
  from n w have h4: "path_exists ?fs (parent ?p) \<or> os_access_W ?fs (nearest_ancestor ?fs (parent ?p))"
    by simp
  have h5: "sanitize_content 1000 PObject False = Inl (TypeError UnsupportedType)"
    by (simp add: sanitize_content_def)
  from create_file_leaves_directories[OF h1 h2 h3 h4 h5, of Utf8] h1 h2 n w h5
  show ?thesis by (simp add: ancestors_3 path_exists_def)
qed

lemma create_file_exists_no_overwrite:
  "path_exists fs p \<Longrightarrow>
   create_file room fs p content False compact enc
     = (Inl (PathValidationError p AlreadyExists), fs)"
  by (simp add: create_file_def create_file_try_def)

lemma create_file_already_exists_only_if:
  assumes "fst (create_file room fs p content overwrite compact enc)
           = Inl (PathValidationError q AlreadyExists)"
  shows "path_exists fs p \<and> \<not> overwrite"
proof (rule ccontr)
  assume n: "\<not> (path_exists fs p \<and> \<not> overwrite)"
  obtain x fs1 where en: "ensure_directory fs (parent p) True True = (x, fs1)"
    by (cases "ensure_directory fs (parent p) True True")
  show False
  proof (cases x)
    case (Inl e)
    with en obtain r where "e = PathValidationError (parent p) r" "r \<noteq> AlreadyExists"
      using ensure_directory_error by blast
    with n en Inl assms show False
      by (auto simp: create_file_def create_file_try_def)
  next
    case (Inr d)
    show False
    proof (cases "sanitize_content room content compact")
      case l: (Inl e)
      then have "create_file_except p e = e" by (rule create_file_except_sanitize)
      moreover from l have "(\<exists>k. e = ValueError k) \<or> (\<exists>t. e = TypeError t)"
        by (rule sanitize_content_error)
      ultimately show False using n en Inr l assms
        by (auto simp: create_file_def create_file_try_def)
    next
      case r: (Inr s)
      obtain y fs2 where w: "write_text fs1 p s enc = (y, fs2)"
        by (cases "write_text fs1 p s enc")
      show False
      proof (cases y)
        case wl: (Inl e)
        with w have "create_file_except p e \<noteq> PathValidationError q AlreadyExists"
          using write_text_error_not_exists by blast
        with n en Inr r w wl assms show False
          by (auto simp: create_file_def create_file_try_def)
      next
        case wr: (Inr u)
        with n en Inr r w assms show False
          by (auto simp: create_file_def create_file_try_def)
      qed
    qed
  qed
qed

lemma create_file_writes:
  assumes "\<not> path_exists fs p" "well_formed fs" "\<not> under_file fs p"
    "os_access_W fs (nearest_ancestor fs p)"
    "sanitize_content room content compact = Inr s" "enc \<noteq> UnknownCodec"
  shows "create_file room fs p content overwrite compact enc
         = (Inr p, (with_directories fs (parent p))(p \<mapsto> RegularFile (map char_of s) True True))"
proof -
  let ?fs1 = "with_directories fs (parent p)"
  have pne: "p \<noteq> []"
    using assms(1,2) by (auto simp: well_formed_def dir_exists)
  then obtain q x where p: "p = q @ [x]" by (cases p rule: rev_cases) auto
  have pq: "path_exists fs (parent p) \<or> os_access_W fs (nearest_ancestor fs (parent p))"
    using assms(4) by (auto simp: p nearest_ancestor_snoc split: if_splits)
  have en: "ensure_directory fs (parent p) True True = (Inr (parent p), ?fs1)"
    using assms(2,3) pq by (rule ensure_parent)
  have ascii: "\<forall>x\<in>set s. x < 128"
    using sanitize_content_printable(2)[OF assms(5)] printable_ascii by blast
  have enc: "encode enc s = Inr (map char_of s)"
    using assms(6) ascii by (rule encode_ascii)
  have a: "\<not> path_exists ?fs1 p"
    using assms(1) with_directories_target[OF assms(2), of p] by (simp add: path_exists_def)
  have b: "\<not> under_file ?fs1 p"
    using assms(3) by (rule under_file_with_directories)
  have "\<not> path_is_file fs (parent p)"
    using assms(3) by (simp add: p)
  then have c: "path_is_dir ?fs1 (parent p)"
    by (intro with_directories_dir) auto
  have d: "os_access_W ?fs1 (parent p)"
    using assms(4) with_directories_writable[of fs q x] by (simp add: p)
  have "write_text ?fs1 p s enc = (Inr (), ?fs1(p \<mapsto> RegularFile (map char_of s) True True))"
    using a b c d enc by (rule write_text_new)
  with en assms(1,5) show ?thesis
    by (simp add: create_file_def create_file_try_def)
qed

lemma read_file_text:
  assumes "fs p = Some (RegularFile (map char_of s) True w)" "\<forall>x\<in>set s. printable x"
    "enc \<noteq> UnknownCodec"
  shows "read_file fs p False enc = Inr (Text s)"
proof -
  have ascii: "\<forall>x\<in>set s. x < 128" using assms(2) printable_ascii by blast
  have dec: "decode enc (map char_of s) = Inr s" using assms(3) ascii by (rule decode_ascii)
  have nocr: "CR \<notin> set s" using assms(2) printable_not_cr by blast
  have nl: "replace_cr (replace_crlf s) = s"
    using nocr by (simp add: replace_crlf_no_cr replace_cr_no_cr)
  have v: "validate_path fs p
             \<lparr>must_exist = True, is_file = Some True, readable = True, writable = False,
              allow_hidden = True\<rparr> = Inr p"
    using assms(1)
    by (simp add: validate_path_def path_exists_def path_is_file_def os_access_R_def)
  have "read_text fs p enc = Inr s"
    using assms(1) dec nl by (simp add: read_text_def read_bytes_def)
  with v show ?thesis by (simp add: read_file_def read_file_try_def)
qed

text \<open>
  Claim C5, as amended. With \<open>overwrite=False\<close>, \<open>create_file\<close> fails with the
  already-exists \<open>PathValidationError\<close> exactly when the target exists beforehand
  (and then changes nothing). When the target does not exist, the file system is a
  tree, no ancestor of the target is a regular file, the deepest existing ancestor is
  writable, the sanitizer accepts the content and the encoding is one of the modelled
  codecs, the call succeeds: it returns the path, the missing ancestors are
  directories, the file holds the bytes of the sanitized text, and reading it back as
  text gives the sanitized text.
\<close>

theorem create_file_no_overwrite:
  "(path_exists fs p \<longrightarrow>
      create_file room fs p content False compact enc
        = (Inl (PathValidationError p AlreadyExists), fs))
   \<and> (fst (create_file room fs p content False compact enc)
         = Inl (PathValidationError q AlreadyExists) \<longrightarrow> path_exists fs p)
   \<and> (\<not> path_exists fs p \<and> well_formed fs \<and> \<not> under_file fs p
       \<and> os_access_W fs (nearest_ancestor fs p)
       \<and> sanitize_content room content compact = Inr s \<and> enc \<noteq> UnknownCodec \<longrightarrow>
        create_file room fs p content False compact enc
          = (Inr p, (with_directories fs (parent p))(p \<mapsto> RegularFile (map char_of s) True True))
        \<and> read_file
             ((with_directories fs (parent p))(p \<mapsto> RegularFile (map char_of s) True True))
             p False enc
           = Inr (Text s))"
proof -
  have 1: "path_exists fs p \<longrightarrow>
           create_file room fs p content False compact enc
             = (Inl (PathValidationError p AlreadyExists), fs)"
    by (simp add: create_file_exists_no_overwrite)
  have 2: "fst (create_file room fs p content False compact enc)
             = Inl (PathValidationError q AlreadyExists) \<longrightarrow> path_exists fs p"
    using create_file_already_exists_only_if by blast
  have 3: "\<not> path_exists fs p \<and> well_formed fs \<and> \<not> under_file fs p
       \<and> os_access_W fs (nearest_ancestor fs p)
       \<and> sanitize_content room content compact = Inr s \<and> enc \<noteq> UnknownCodec \<longrightarrow>
        create_file room fs p content False compact enc
          = (Inr p, (with_directories fs (parent p))(p \<mapsto> RegularFile (map char_of s) True True))
        \<and> read_file
             ((with_directories fs (parent p))(p \<mapsto> RegularFile (map char_of s) True True))
             p False enc
           = Inr (Text s)"
  proof (intro impI conjI)
    assume a: "\<not> path_exists fs p \<and> well_formed fs \<and> \<not> under_file fs p
       \<and> os_access_W fs (nearest_ancestor fs p)
       \<and> sanitize_content room content compact = Inr s \<and> enc \<noteq> UnknownCodec"
    then show "create_file room fs p content False compact enc
          = (Inr p, (with_directories fs (parent p))(p \<mapsto> RegularFile (map char_of s) True True))"
      by (intro create_file_writes) auto
    from a have "\<forall>x\<in>set s. printable x"
      using sanitize_content_printable(2) by blast
    with a show "read_file
             ((with_directories fs (parent p))(p \<mapsto> RegularFile (map char_of s) True True))
             p False enc
           = Inr (Text s)"
      by (intro read_file_text[where w = True]) auto
  qed
  from 1 2 3 show ?thesis by (intro conjI)
qed

theorem create_file_no_overwrite_witness:
  "path_exists [[] \<mapsto> Directory True True, [''f.txt''] \<mapsto> RegularFile ''old'' True True] [''f.txt'']
   \<and> create_file 1000 [[] \<mapsto> Directory True True, [''f.txt''] \<mapsto> RegularFile ''old'' True True]
        [''f.txt''] (PStr (lit ''new'')) False False Utf8
       = (Inl (PathValidationError [''f.txt''] AlreadyExists),
          [[] \<mapsto> Directory True True, [''f.txt''] \<mapsto> RegularFile ''old'' True True])
   \<and> \<not> path_exists [[] \<mapsto> Directory True True] [''notes'', ''a.txt'']
   \<and> well_formed [[] \<mapsto> Directory True True]
   \<and> \<not> under_file [[] \<mapsto> Directory True True] [''notes'', ''a.txt'']
   \<and> os_access_W [[] \<mapsto> Directory True True]
        (nearest_ancestor [[] \<mapsto> Directory True True] [''notes'', ''a.txt''])
   \<and> sanitize_content 1000 (PStr (lit ''hi'')) False = Inr (lit ''hi'')
   \<and> fst (create_file 1000 [[] \<mapsto> Directory True True] [''notes'', ''a.txt''] (PStr (lit ''hi''))
             False False Utf8)
       = Inr [''notes'', ''a.txt'']
   \<and> snd (create_file 1000 [[] \<mapsto> Directory True True] [''notes'', ''a.txt''] (PStr (lit ''hi''))
             False False Utf8) [''notes'', ''a.txt'']
       = Some (RegularFile ''hi'' True True)
   \<and> path_is_dir
        (snd (create_file 1000 [[] \<mapsto> Directory True True] [''notes'', ''a.txt'']
                (PStr (lit ''hi'')) False False Utf8)) [''notes'']
   \<and> read_file
         (snd (create_file 1000 [[] \<mapsto> Directory True True] [''notes'', ''a.txt'']
                 (PStr (lit ''hi'')) False False Utf8))
         [''notes'', ''a.txt''] False Utf8
       = Inr (Text (lit ''hi''))"
proof -
  let ?fsA = "[[] \<mapsto> Directory True True, [''f.txt''] \<mapsto> RegularFile ''old'' True True]"
  let ?fsB = "[[] \<mapsto> Directory True True]"
  let ?p = "[''notes'', ''a.txt'']"
  have a1: "path_exists ?fsA [''f.txt'']" by (simp add: path_exists_def)
  have b1: "\<not> path_exists ?fsB ?p" by (simp add: path_exists_def)
  have b2: "well_formed ?fsB" by (rule well_formed_root_only)
  have b3: "\<not> under_file ?fsB ?p"
    by (simp add: under_file_def ancestors_2 path_is_file_def)
  have b4: "sanitize_content 1000 (PStr (lit ''hi'')) False = Inr (lit ''hi'')"
    by (simp add: sanitize_content_def clean_text_def lit_def strip_unprintable_def
        printable_def replace_cr_def py_strip_def is_space_def)
  have b5: "Utf8 \<noteq> UnknownCodec" by simp
  have b6: "os_access_W ?fsB (nearest_ancestor ?fsB ?p)"
    by (simp add: nearest_ancestor_def ancestors_2 path_exists_def os_access_W_def)
  have m: "map char_of (lit ''hi'') = ''hi''"
    by (simp only: lit_def map_map comp_def char_of_char map_ident)
  from create_file_no_overwrite[of ?fsA "[''f.txt'']" 1000 "PStr (lit ''new'')" False Utf8] a1
  have A: "create_file 1000 ?fsA [''f.txt''] (PStr (lit ''new'')) False False Utf8
           = (Inl (PathValidationError [''f.txt''] AlreadyExists), ?fsA)"
    by blast
  from create_file_no_overwrite[of ?fsB ?p 1000 "PStr (lit ''hi'')" False Utf8 _ "lit ''hi''"]
    b1 b2 b3 b4 b5 b6
  have B: "create_file 1000 ?fsB ?p (PStr (lit ''hi'')) False False Utf8
           = (Inr ?p, (with_directories ?fsB (parent ?p))(?p \<mapsto> RegularFile ''hi'' True True))"
    and C: "read_file ((with_directories ?fsB (parent ?p))(?p \<mapsto> RegularFile ''hi'' True True))
              ?p False Utf8 = Inr (Text (lit ''hi''))"
    unfolding m by blast+
  have D: "path_is_dir ((with_directories ?fsB (parent ?p))(?p \<mapsto> RegularFile ''hi'' True True))
             [''notes'']"
    by (simp add: path_is_dir_def with_directories_def parent_def ancestors_1)
  from a1 A b1 b2 b3 b6 b4 B C D show ?thesis by simp
qed

text \<open>
  The claim as stated says the call succeeds whenever the target does not exist. It
  does not for the default content: on a file system that holds only the root,
  creating \<open>f.txt\<close> with the empty string and \<open>overwrite=False\<close> raises the
  sanitizer's \<open>ValueError\<close>. Nor does it in a directory that is not writable (the
  permission error), with an encoding Python does not know (the error for an
  unexpected failure, after the file was made), or below a regular file (the
  wrong-kind error of \<open>_ensure_directory\<close>).
\<close>

theorem create_file_no_overwrite_counterexample:
  "\<not> path_exists [[] \<mapsto> Directory True True] [''f.txt'']
   \<and> fst (create_file 1000 [[] \<mapsto> Directory True True] [''f.txt''] (PStr []) False False Utf8)
       = Inl (ValueError EmptyContent)
   \<and> \<not> path_exists [[] \<mapsto> Directory True True, [''ro''] \<mapsto> Directory True False]
         [''ro'', ''f.txt'']
   \<and> create_file 1000 [[] \<mapsto> Directory True True, [''ro''] \<mapsto> Directory True False]
         [''ro'', ''f.txt''] (PStr (lit ''hi'')) False False Utf8
       = (Inl (PathValidationError [''ro'', ''f.txt''] PermissionDenied),
          [[] \<mapsto> Directory True True, [''ro''] \<mapsto> Directory True False])
   \<and> fst (create_file 1000 [[] \<mapsto> Directory True True] [''f.txt''] (PStr (lit ''hi'')) False False
            UnknownCodec)
       = Inl (PathValidationError [''f.txt''] UnexpectedFailure)
   \<and> \<not> path_exists [[] \<mapsto> Directory True True, [''a''] \<mapsto> RegularFile ''x'' True True]
         [''a'', ''f.txt'']
   \<and> fst (create_file 1000 [[] \<mapsto> Directory True True, [''a''] \<mapsto> RegularFile ''x'' True True]
            [''a'', ''f.txt''] (PStr (lit ''hi'')) False False Utf8)
       = Inl (PathValidationError [''a''] WrongKind)"
proof -
  have 1: "\<not> path_exists [[] \<mapsto> Directory True True] [''f.txt'']
     \<and> fst (create_file 1000 [[] \<mapsto> Directory True True] [''f.txt''] (PStr []) False False Utf8)
         = Inl (ValueError EmptyContent)"
    by (simp add: create_file_def create_file_try_def path_exists_def ensure_directory_def
        path_is_dir_def parent_def sanitize_content_def
        clean_text_def strip_unprintable_def replace_cr_def py_strip_def)
  have s: "sanitize_content 1000 (PStr (lit ''hi'')) False = Inr (lit ''hi'')"
    by (simp add: sanitize_content_def clean_text_def lit_def strip_unprintable_def
        printable_def replace_cr_def py_strip_def is_space_def)
  have 2: "\<not> path_exists [[] \<mapsto> Directory True True, [''ro''] \<mapsto> Directory True False]
         [''ro'', ''f.txt'']
     \<and> create_file 1000 [[] \<mapsto> Directory True True, [''ro''] \<mapsto> Directory True False]
         [''ro'', ''f.txt''] (PStr (lit ''hi'')) False False Utf8
       = (Inl (PathValidationError [''ro'', ''f.txt''] PermissionDenied),
          [[] \<mapsto> Directory True True, [''ro''] \<mapsto> Directory True False])"
    by (simp add: s create_file_def create_file_try_def path_exists_def ensure_directory_def
        path_is_dir_def parent_def write_text_def open_w_def under_file_def ancestors_2
        path_is_file_def os_access_W_def)
  have 3: "fst (create_file 1000 [[] \<mapsto> Directory True True] [''f.txt''] (PStr (lit ''hi''))
                  False False UnknownCodec)
       = Inl (PathValidationError [''f.txt''] UnexpectedFailure)"
    by (simp add: s create_file_def create_file_try_def path_exists_def ensure_directory_def
        path_is_dir_def parent_def write_text_def open_w_def under_file_def ancestors_1
        path_is_file_def os_access_W_def)
  have 4: "\<not> path_exists [[] \<mapsto> Directory True True, [''a''] \<mapsto> RegularFile ''x'' True True]
         [''a'', ''f.txt'']
     \<and> fst (create_file 1000 [[] \<mapsto> Directory True True, [''a''] \<mapsto> RegularFile ''x'' True True]
            [''a'', ''f.txt''] (PStr (lit ''hi'')) False False Utf8)
       = Inl (PathValidationError [''a''] WrongKind)"
    by (simp add: create_file_def create_file_try_def path_exists_def ensure_directory_def
        path_is_dir_def parent_def)
  from 1 2 3 4 show ?thesis by (intro conjI) simp_all
qed

lemma sanitize_content_empty:
  "content_str room content compact = Inr s \<Longrightarrow> py_strip (clean_text compact s) = []
   \<Longrightarrow> sanitize_content room content compact = Inl (ValueError EmptyContent)"
  by (simp add: sanitize_content_def Let_def)

lemma create_file_try_never_writes:
  assumes "sanitize_content room content compact = Inl e0"
  shows "\<exists>e fs'. create_file_try room fs p content overwrite compact enc = (Inl e, fs')
           \<and> fs' p = fs p"
proof (cases "path_exists fs p \<and> \<not> overwrite")
  case True
  then show ?thesis by (simp add: create_file_try_def)
next
  case False
  obtain r fs1 where en: "ensure_directory fs (parent p) True True = (r, fs1)"
    by (cases "ensure_directory fs (parent p) True True")
  then have "fs1 p = fs p" by (rule ensure_directory_frame)
  with False en assms show ?thesis
    by (cases r) (auto simp: create_file_try_def)
qed

lemma create_file_success:
  assumes "create_file room fs p content overwrite compact enc = (Inr r, fs')"
  shows "\<exists>s data rd wr. sanitize_content room content compact = Inr s \<and> encode enc s = Inr data
           \<and> fs' p = Some (RegularFile data rd wr)
           \<and> (\<not> path_exists fs p \<longrightarrow> rd)"
proof -
  from assms have t: "create_file_try room fs p content overwrite compact enc = (Inr r, fs')"
    by (auto simp: create_file_def split: prod.splits sum.splits)
  obtain x fs1 where en: "ensure_directory fs (parent p) True True = (x, fs1)"
    by (cases "ensure_directory fs (parent p) True True")
  from en have fr: "fs1 p = fs p" by (rule ensure_directory_frame)
  from t en obtain s where s: "sanitize_content room content compact = Inr s"
    by (cases "sanitize_content room content compact")
       (auto simp: create_file_try_def split: if_splits sum.splits)
  from t en s obtain u where "write_text fs1 p s enc = (Inr u, fs')"
    by (auto simp: create_file_try_def split: if_splits sum.splits prod.splits)
  from write_text_result[OF this] s fr show ?thesis by (auto simp: path_exists_def)
qed

lemma create_file_success_nonempty:
  assumes "create_file room fs p content overwrite compact enc = (Inr r, fs')"
  shows "\<exists>data rd wr. fs' p = Some (RegularFile data rd wr) \<and> data \<noteq> []"
proof -
  from create_file_success[OF assms] obtain s data rd wr where
    s: "sanitize_content room content compact = Inr s" and e: "encode enc s = Inr data"
    and f: "fs' p = Some (RegularFile data rd wr)"
    by blast
  from s have "s \<noteq> []" by (rule sanitize_content_printable(1))
  with e have "data \<noteq> []" by (rule encode_nonempty)
  with f show ?thesis by blast
qed

subsection \<open>Empty files\<close>

lemma os_mkdir_only_dirs:
  "os_mkdir fs p = (x, fs1) \<Longrightarrow> fs1 q = fs q \<or> fs1 q = Some (Directory True True)"
  by (auto simp: os_mkdir_def split: if_splits)

lemma path_mkdir_only_dirs:
  "path_mkdir fs d ps eo = (r, fs') \<Longrightarrow> fs' q = fs q \<or> fs' q = Some (Directory True True)"
proof (induction fs d ps eo arbitrary: r fs' rule: path_mkdir.induct)
  case (1 fs p parents exist_ok)
  obtain x fs1 where om: "os_mkdir fs p = (x, fs1)" by (cases "os_mkdir fs p")
  then have fr1: "fs1 q = fs q \<or> fs1 q = Some (Directory True True)"
    by (rule os_mkdir_only_dirs)
  show ?case
  proof (cases x)
    case (Inr u)
    with om "1.prems" have "fs' = fs1" by (simp add: path_mkdir.simps[of fs p])
    with fr1 show ?thesis by simp
  next
    case (Inl e)
    with om have same: "fs1 = fs" using os_mkdir_error by blast
    show ?thesis
    proof (cases "e = FileNotFoundError \<and> parents \<and> parent p \<noteq> p")
      case False
      with om Inl "1.prems" have "fs' = fs1"
        by (auto simp: path_mkdir.simps[of fs p] split: if_splits)
      with fr1 show ?thesis by simp
    next
      case True
      obtain x2 fs2 where pm: "path_mkdir fs1 (parent p) True True = (x2, fs2)"
        by (cases "path_mkdir fs1 (parent p) True True")
      have fr2: "fs2 q = fs1 q \<or> fs2 q = Some (Directory True True)"
        using "1.IH"(1)[OF om[symmetric] Inl _ _ pm] True by simp
      show ?thesis
      proof (cases x2)
        case l: (Inl e1)
        with om Inl True pm "1.prems" have "fs' = fs2"
          by (simp add: path_mkdir.simps[of fs p])
        with same fr2 show ?thesis by simp
      next
        case r2: (Inr u)
        with om Inl True pm "1.prems" have last: "path_mkdir fs2 p False exist_ok = (r, fs')"
          by (simp add: path_mkdir.simps[of fs p])
        have "fs' q = fs2 q \<or> fs' q = Some (Directory True True)"
          using "1.IH"(2)[OF om[symmetric] Inl _ _ pm[symmetric] r2 last] True by simp
        with same fr2 show ?thesis by auto
      qed
    qed
  qed
qed

lemma ensure_directory_only_dirs:
  assumes "ensure_directory fs d cm eo = (r, fs')"
  shows "fs' q = fs q \<or> fs' q = Some (Directory True True)"
proof -
  obtain x fs1 where pm: "path_mkdir fs d True eo = (x, fs1)"
    by (cases "path_mkdir fs d True eo")
  from path_mkdir_only_dirs[OF pm] have "fs1 q = fs q \<or> fs1 q = Some (Directory True True)" .
  with assms pm show ?thesis
    by (auto simp: ensure_directory_def split: if_splits sum.splits)
qed

lemma write_text_frame: "write_text fs p s enc = (r, fs') \<Longrightarrow> q \<noteq> p \<Longrightarrow> fs' q = fs q"
  by (auto simp: write_text_def open_w_def put_bytes_def
      split: option.splits entry.splits if_splits sum.splits)

lemma write_text_known_codec:
  assumes "write_text fs p s enc = (r, fs')" "enc \<noteq> UnknownCodec" "\<forall>x\<in>set s. x < 128"
    "s \<noteq> []"
  shows "fs' p = fs p \<or> (\<exists>data rd wr. fs' p = Some (RegularFile data rd wr) \<and> data \<noteq> [])"
proof -
  have enc: "encode enc s = Inr (map char_of s)"
    using assms(2,3) by (rule encode_ascii)
  from assms(4) have "map char_of s \<noteq> []" by simp
  with assms(1) enc show ?thesis
    by (auto simp: write_text_def open_w_def put_bytes_def
        split: option.splits entry.splits if_splits)
qed

text \<open>
  With one of the three codecs no call of \<open>create_file\<close> makes an empty file or
  empties one: a file that is empty after the call, at whatever path, was there and
  empty before it.
\<close>

lemma create_file_no_empty_file:
  assumes "create_file room fs p content overwrite compact enc = (res, fs')"
    "enc \<noteq> UnknownCodec" "fs' q = Some (RegularFile [] rd wr)"
  shows "fs q = Some (RegularFile [] rd wr)"
proof -
  obtain x where t: "create_file_try room fs p content overwrite compact enc = (x, fs')"
    using assms(1) by (auto simp: create_file_def split: prod.splits sum.splits)
  show ?thesis
  proof (cases "path_exists fs p \<and> \<not> overwrite")
    case True
    with t have "fs' = fs" by (simp add: create_file_try_def)
    with assms(3) show ?thesis by simp
  next
    case False
    obtain y fs1 where en: "ensure_directory fs (parent p) True True = (y, fs1)"
      by (cases "ensure_directory fs (parent p) True True")
    from ensure_directory_only_dirs[OF en]
    have d1: "fs1 q = fs q \<or> fs1 q = Some (Directory True True)" .
    from False t en have t': "(case y of
        Inl e \<Rightarrow> (Inl e, fs1)
      | Inr d \<Rightarrow>
          (case sanitize_content room content compact of
             Inl e \<Rightarrow> (Inl e, fs1)
           | Inr safe_content \<Rightarrow>
               (case write_text fs1 p safe_content enc of
                  (Inl e, fs2) \<Rightarrow> (Inl e, fs2)
                | (Inr u, fs2) \<Rightarrow> (Inr p, fs2)))) = (x, fs')"
      by (auto simp: create_file_try_def)
    have "fs1 q = Some (RegularFile [] rd wr)"
    proof (cases y)
      case (Inl e)
      with t' have "fs' = fs1" by simp
      with assms(3) show ?thesis by simp
    next
      case (Inr d)
      show ?thesis
      proof (cases "sanitize_content room content compact")
        case l: (Inl e)
        with Inr t' have "fs' = fs1" by simp
        with assms(3) show ?thesis by simp
      next
        case r: (Inr s)
        obtain z fs2 where w: "write_text fs1 p s enc = (z, fs2)"
          by (cases "write_text fs1 p s enc")
        with Inr r t' have eq: "fs' = fs2"
          by (cases z) simp_all
        show ?thesis
        proof (cases "q = p")
          case qp: False
          with w have "fs2 q = fs1 q" by (rule write_text_frame)
          with eq assms(3) show ?thesis by simp
        next
          case qp: True
          have ascii: "\<forall>x\<in>set s. x < 128"
            using sanitize_content_printable(2)[OF r] printable_ascii by blast
          have ne: "s \<noteq> []" using r by (rule sanitize_content_printable(1))
          from write_text_known_codec[OF w assms(2) ascii ne] eq qp assms(3)
          show ?thesis by auto
        qed
      qed
    qed
    with d1 show ?thesis by auto
  qed
qed


lemma well_formed_ro:
  "well_formed [[] \<mapsto> Directory True True, [''ro''] \<mapsto> Directory True False]"
  by (auto simp: well_formed_def path_is_dir_def path_exists_def parent_def split: if_splits)

lemma create_file_hi:
  "create_file 1000 [[] \<mapsto> Directory True True] [''f.txt''] (PStr (lit ''hi'')) True False Utf8
   = (Inr [''f.txt''],
      [[] \<mapsto> Directory True True, [''f.txt''] \<mapsto> RegularFile ''hi'' True True])"
proof -
  have ch: "char_of (104::nat) = CHR ''h''" "char_of (105::nat) = CHR ''i''"
    by code_simp+
  show ?thesis
    by (simp add: ch create_file_def create_file_try_def path_exists_def ensure_directory_def
        path_is_dir_def parent_def sanitize_content_def clean_text_def lit_def
        strip_unprintable_def printable_def replace_cr_def py_strip_def is_space_def
        write_text_def open_w_def under_file_def ancestors_def path_is_file_def put_bytes_def
        utf8_encode_char_def os_access_W_def)
qed

lemma create_file_hi_beside_empty:
  "create_file 1000
     [[] \<mapsto> Directory True True, [''e.txt''] \<mapsto> RegularFile [] True True]
     [''f.txt''] (PStr (lit ''hi'')) True False Utf8
   = (Inr [''f.txt''],
      [[] \<mapsto> Directory True True, [''e.txt''] \<mapsto> RegularFile [] True True,
       [''f.txt''] \<mapsto> RegularFile ''hi'' True True])"
proof -
  have ch: "char_of (104::nat) = CHR ''h''" "char_of (105::nat) = CHR ''i''"
    by code_simp+
  show ?thesis
    by (simp add: ch create_file_def create_file_try_def path_exists_def ensure_directory_def
        path_is_dir_def parent_def sanitize_content_def clean_text_def lit_def
        strip_unprintable_def printable_def replace_cr_def py_strip_def is_space_def
        write_text_def open_w_def under_file_def ancestors_def path_is_file_def put_bytes_def
        utf8_encode_char_def os_access_W_def)
qed



section \<open>Writing a dictionary and reading it back\<close>

subsection \<open>Dictionaries\<close>

lemma foldl_dict_set:
  "distinct (map fst (acc @ kvs)) \<Longrightarrow> foldl dict_set acc kvs = acc @ kvs"
proof (induction kvs arbitrary: acc)
  case Nil
  show ?case by simp
next
  case (Cons kv kvs)
  from Cons.prems have "fst kv \<notin> fst ` set acc" by auto
  then have step: "dict_set acc kv = acc @ [kv]" by (simp add: dict_set_def)
  from Cons.prems have "distinct (map fst ((acc @ [kv]) @ kvs))" by simp
  from Cons.IH[OF this] step show ?case by simp
qed

lemma make_dict_distinct: "distinct (map fst kvs) \<Longrightarrow> make_dict kvs = kvs"
  using foldl_dict_set[of "[]" kvs] by (simp add: make_dict_def)

subsection \<open>Strings\<close>

lemma hex_value_hex_digit: "d < 16 \<Longrightarrow> hex_value (hex_digit d) = Some d"
  by (auto simp: hex_value_def hex_digit_def)

lemma hex4_control:
  assumes "c < 32"
  shows "hex4 48 48 (hex_digit (c div 16)) (hex_digit (c mod 16)) = Some c"
proof -
  from assms have a: "c div 16 < 16" by simp
  have b: "c mod 16 < 16" by simp
  have z: "hex_value 48 = Some 0" by (simp add: hex_value_def)
  show ?thesis
    by (simp add: hex4_def z hex_value_hex_digit[OF a] hex_value_hex_digit[OF b])
qed

lemma scanstring_escape:
  "scanstring (json_escape_char c @ t) = push c (scanstring t)"
proof -
  consider "c = 34" | "c = 92" | "c = 10" | "c = 13" | "c = 9" | "c = 8" | "c = 12"
    | "c < 32" "c \<noteq> 10" "c \<noteq> 13" "c \<noteq> 9" "c \<noteq> 8" "c \<noteq> 12"
    | "32 \<le> c" "c \<noteq> 34" "c \<noteq> 92"
    by linarith
  then show ?thesis
  proof cases
    case 8
    then have e: "json_escape_char c = [92, 117, 48, 48, hex_digit (c div 16), hex_digit (c mod 16)]"
      by (simp add: json_escape_char_def)
    show ?thesis using 8(1) by (simp add: e hex4_control)
  next
    case 9
    then have e: "json_escape_char c = [c]" by (simp add: json_escape_char_def)
    show ?thesis using 9 by (simp add: e)
  qed (simp_all add: json_escape_char_def unescape_def)
qed

lemma scanstring_body:
  "scanstring (concat (map json_escape_char s) @ 34 # rest) = Inr (s, rest)"
proof (induction s)
  case Nil
  show ?case by simp
next
  case (Cons c s)
  have "scanstring (concat (map json_escape_char (c # s)) @ 34 # rest)
        = scanstring (json_escape_char c @ (concat (map json_escape_char s) @ 34 # rest))"
    by simp
  also have "\<dots> = push c (scanstring (concat (map json_escape_char s) @ 34 # rest))"
    by (rule scanstring_escape)
  also have "\<dots> = Inr (c # s, rest)" by (simp add: Cons.IH push_def)
  finally show ?case .
qed

subsection \<open>Integers\<close>

lemma str_nat_digits: "x \<in> set (str_nat n) \<Longrightarrow> is_digit x"
proof (induction n arbitrary: x rule: str_nat.induct)
  case (1 n)
  show ?case
  proof (cases "n < 10")
    case True
    with "1.prems" show ?thesis by (simp add: str_nat.simps[of n] is_digit_def)
  next
    case False
    with "1.prems" have "x \<in> set (str_nat (n div 10)) \<or> x = 48 + n mod 10"
      by (auto simp: str_nat.simps[of n])
    then show ?thesis
    proof
      assume "x \<in> set (str_nat (n div 10))"
      with "1.IH"[OF False] show ?thesis by simp
    next
      assume "x = 48 + n mod 10"
      moreover have "n mod 10 < 10" by simp
      ultimately show ?thesis by (simp add: is_digit_def)
    qed
  qed
qed

lemma str_nat_nonempty: "str_nat n \<noteq> []"
  by (simp add: str_nat.simps[of n])

lemma str_nat_zero: "str_nat 0 = [48]"
  by (simp add: str_nat.simps[of 0])

lemma str_nat_hd: "0 < n \<Longrightarrow> hd (str_nat n) \<noteq> 48"
proof (induction n rule: str_nat.induct)
  case (1 n)
  show ?case
  proof (cases "n < 10")
    case True
    with "1.prems" show ?thesis by (simp add: str_nat.simps[of n])
  next
    case False
    then have "0 < n div 10" by simp
    with "1.IH"[OF False] have "hd (str_nat (n div 10)) \<noteq> 48" by simp
    with False show ?thesis by (simp add: str_nat.simps[of n] str_nat_nonempty)
  qed
qed

lemma digits_value_snoc: "digits_value (ds @ [d]) = 10 * digits_value ds + (d - 48)"
  by (simp add: digits_value_def)

lemma digits_value_str_nat: "digits_value (str_nat n) = n"
proof (induction n rule: str_nat.induct)
  case (1 n)
  show ?case
  proof (cases "n < 10")
    case True
    then show ?thesis by (simp add: str_nat.simps[of n] digits_value_def)
  next
    case False
    with "1.IH"[OF False] show ?thesis
      by (simp add: str_nat.simps[of n] digits_value_snoc)
  qed
qed

lemma lex_frac_delimited: "delimited rest \<Longrightarrow> lex_frac rest = ([], rest)"
  by (cases rest) (auto simp: delimited_def lex_frac_def split: list.splits)

lemma lex_exp_delimited: "delimited rest \<Longrightarrow> lex_exp rest = ([], rest)"
  by (cases rest) (auto simp: delimited_def lex_exp_def)

lemma number_result_int:
  "delimited rest \<Longrightarrow> length ds \<le> int_max_str_digits \<Longrightarrow>
   number_result negative ds rest
     = Inr (PInt (if negative then - int (digits_value ds) else int (digits_value ds)), rest)"
  by (simp add: number_result_def lex_frac_delimited lex_exp_delimited)

lemma delimited_no_digit: "delimited rest \<Longrightarrow> rest = [] \<or> \<not> is_digit (hd rest)"
  by (auto simp: delimited_def is_digit_def)

lemma takeWhile_digits:
  assumes "\<forall>x\<in>set ds. is_digit x" "delimited rest"
  shows "takeWhile is_digit (ds @ rest) = ds" and "dropWhile is_digit (ds @ rest) = rest"
proof -
  from assms(2) have r: "takeWhile is_digit rest = []" "dropWhile is_digit rest = rest"
    using delimited_no_digit[of rest] by (cases rest; auto)+
  from assms(1) show "takeWhile is_digit (ds @ rest) = ds" by (simp add: takeWhile_append2 r)
  from assms(1) show "dropWhile is_digit (ds @ rest) = rest" by (simp add: dropWhile_append2 r)
qed

lemma parse_number_nat:
  assumes "delimited rest" "length (str_nat n) \<le> int_max_str_digits"
  shows "parse_number (str_nat n @ rest) = Inr (PInt (int n), rest)"
proof -
  obtain d ds where s: "str_nat n = d # ds" using str_nat_nonempty[of n] by (cases "str_nat n") auto
  have dig: "\<forall>x\<in>set (str_nat n). is_digit x" using str_nat_digits by blast
  with s have d: "is_digit d" by simp
  then have d45: "d \<noteq> 45" by (auto simp: is_digit_def)
  show ?thesis
  proof (cases "n = 0")
    case True
    with s str_nat_zero have "d = 48" "ds = []" by auto
    with s True show ?thesis
      using number_result_int[OF assms(1), of "[48]"]
      by (simp add: parse_number_def digits_value_def int_max_str_digits_def)
  next
    case False
    then have "hd (str_nat n) \<noteq> 48" using str_nat_hd by simp
    with s have d48: "d \<noteq> 48" by simp
    have tw: "takeWhile is_digit (d # ds @ rest) = str_nat n"
      and dw: "dropWhile is_digit (d # ds @ rest) = rest"
      using takeWhile_digits[OF dig assms(1)] s by simp_all
    show ?thesis
      using d d45 d48 tw dw number_result_int[OF assms] s digits_value_str_nat[of n]
      by (simp add: parse_number_def Let_def)
  qed
qed

lemma parse_number_neg:
  assumes "delimited rest" "0 < n" "length (str_nat n) \<le> int_max_str_digits"
  shows "parse_number (45 # str_nat n @ rest) = Inr (PInt (- int n), rest)"
proof -
  obtain d ds where s: "str_nat n = d # ds" using str_nat_nonempty[of n] by (cases "str_nat n") auto
  have dig: "\<forall>x\<in>set (str_nat n). is_digit x" using str_nat_digits by blast
  with s have d: "is_digit d" by simp
  have "hd (str_nat n) \<noteq> 48" using str_nat_hd assms(2) by simp
  with s have d48: "d \<noteq> 48" by simp
  have tw: "takeWhile is_digit (d # ds @ rest) = str_nat n"
    and dw: "dropWhile is_digit (d # ds @ rest) = rest"
    using takeWhile_digits[OF dig assms(1)] s by simp_all
  show ?thesis
    using d d48 tw dw number_result_int[OF assms(1,3)] s digits_value_str_nat[of n]
    by (simp add: parse_number_def Let_def)
qed

lemma parse_number_decimal:
  assumes "delimited rest" "length (str_nat (nat \<bar>i\<bar>)) \<le> int_max_str_digits"
  shows "parse_number (decimal i @ rest) = Inr (PInt i, rest)"
proof (cases "i < 0")
  case True
  then have "0 < nat (- i)" and "nat \<bar>i\<bar> = nat (- i)" by simp_all
  with parse_number_neg[OF assms(1), of "nat (- i)"] assms(2) True show ?thesis
    by (simp add: decimal_def)
next
  case False
  then have "nat \<bar>i\<bar> = nat i" by simp
  with parse_number_nat[OF assms(1), of "nat i"] assms(2) False show ?thesis
    by (simp add: decimal_def)
qed

lemma decimal_hd: "decimal i \<noteq> [] \<and> (hd (decimal i) = 45 \<or> is_digit (hd (decimal i)))"
proof (cases "i < 0")
  case True
  then show ?thesis by (simp add: decimal_def)
next
  case False
  obtain d ds where s: "str_nat (nat i) = d # ds"
    using str_nat_nonempty[of "nat i"] by (cases "str_nat (nat i)") auto
  with str_nat_digits[of d "nat i"] False show ?thesis by (simp add: decimal_def)
qed

lemma str_int_Some: "str_int i = Some t \<Longrightarrow> t = decimal i"
  by (simp add: str_int_def split: if_splits)

lemma str_int_Some_length:
  "str_int i = Some t \<Longrightarrow> length (str_nat (nat \<bar>i\<bar>)) \<le> int_max_str_digits"
  by (simp add: str_int_def split: if_splits)

lemma str_int_within: "length (str_nat (nat \<bar>i\<bar>)) \<le> int_max_str_digits \<Longrightarrow> str_int i = Some (decimal i)"
  by (simp add: str_int_def)

subsection \<open>Floats\<close>

lemma digits_append:
  assumes "delimited rest"
  shows "takeWhile is_digit (x @ rest) = takeWhile is_digit x"
    and "dropWhile is_digit (x @ rest) = dropWhile is_digit x @ rest"
proof -
  from assms have r: "takeWhile is_digit rest = []" "dropWhile is_digit rest = rest"
    using delimited_no_digit[of rest] by (cases rest; auto)+
  show "takeWhile is_digit (x @ rest) = takeWhile is_digit x"
    by (induction x) (simp_all add: r)
  show "dropWhile is_digit (x @ rest) = dropWhile is_digit x @ rest"
    by (induction x) (simp_all add: r)
qed

lemma delimited_hd: "delimited (d # r) \<Longrightarrow> \<not> is_digit d \<and> d \<noteq> 46 \<and> d \<noteq> 101 \<and> d \<noteq> 69 \<and> d \<noteq> 43 \<and> d \<noteq> 45"
  by (auto simp: delimited_def is_digit_def)

lemma lex_frac_append:
  assumes "delimited rest"
  shows "lex_frac (x @ rest) = (fst (lex_frac x), snd (lex_frac x) @ rest)"
proof (cases x)
  case Nil
  with assms show ?thesis by (simp add: lex_frac_delimited) (simp add: lex_frac_def)
next
  case (Cons c cs)
  show ?thesis
  proof (cases cs)
    case Nil
    show ?thesis
    proof (cases rest)
      case n: Nil
      with Cons Nil show ?thesis by (simp add: lex_frac_def)
    next
      case (Cons d r)
      with assms have "\<not> is_digit d" using delimited_hd by blast
      with Cons \<open>x = c # cs\<close> Nil show ?thesis by (simp add: lex_frac_def)
    qed
  next
    case c2: (Cons d r)
    with Cons digits_append[OF assms, of r] show ?thesis
      by (simp add: lex_frac_def)
  qed
qed

lemma lex_exp_append:
  assumes "delimited rest"
  shows "lex_exp (x @ rest) = (fst (lex_exp x), snd (lex_exp x) @ rest)"
proof (cases x)
  case Nil
  with assms show ?thesis by (simp add: lex_exp_delimited) (simp add: lex_exp_def)
next
  case (Cons c cs)
  note x = Cons
  show ?thesis
  proof (cases "c = 101 \<or> c = 69")
    case False
    with x show ?thesis by (simp add: lex_exp_def)
  next
    case e: True
    show ?thesis
    proof (cases cs)
      case Nil
      show ?thesis
      proof (cases rest)
        case n: Nil
        with x Nil show ?thesis by (simp add: lex_exp_def)
      next
        case (Cons d r)
        with assms have "\<not> is_digit d \<and> d \<noteq> 43 \<and> d \<noteq> 45" using delimited_hd by blast
        with x Nil Cons e show ?thesis by (simp add: lex_exp_def)
      qed
    next
      case c2: (Cons d r)
      show ?thesis
      proof (cases "is_digit d")
        case True
        with x c2 e digits_append[OF assms, of "d # r"] show ?thesis
          by (simp add: lex_exp_def)
      next
        case nd: False
        show ?thesis
        proof (cases "d = 43 \<or> d = 45")
          case False
          with x c2 e nd show ?thesis by (simp add: lex_exp_def)
        next
          case sg: True
          show ?thesis
          proof (cases r)
            case Nil
            show ?thesis
            proof (cases rest)
              case n: Nil
              with x c2 Nil show ?thesis by (simp add: lex_exp_def)
            next
              case (Cons d' r')
              with assms have "\<not> is_digit d'" using delimited_hd by blast
              with x c2 Nil Cons e nd sg show ?thesis by (simp add: lex_exp_def)
            qed
          next
            case c3: (Cons d' r')
            with x c2 e nd sg digits_append[OF assms, of r'] show ?thesis
              by (simp add: lex_exp_def)
          qed
        qed
      qed
    qed
  qed
qed

lemma number_result_append:
  assumes "delimited rest" "number_result negative ds x = Inr (PFloat f, r)"
  shows "number_result negative ds (x @ rest) = Inr (PFloat f, r @ rest)"
proof -
  obtain frac r1 where fr: "lex_frac x = (frac, r1)" by (cases "lex_frac x")
  obtain ex r2 where ex: "lex_exp r1 = (ex, r2)" by (cases "lex_exp r1")
  have fr': "lex_frac (x @ rest) = (frac, r1 @ rest)"
    using lex_frac_append[OF assms(1), of x] fr by simp
  have ex': "lex_exp (r1 @ rest) = (ex, r2 @ rest)"
    using lex_exp_append[OF assms(1), of r1] ex by simp
  from assms(2) fr ex show ?thesis
    by (auto simp: number_result_def fr' ex' split: if_splits)
qed

lemma no_number_not_finite: "no_number s \<noteq> Inr (PFloat (Finite x), r)"
  by (simp add: no_number_def)

lemma parse_number_append:
  assumes "delimited rest" "parse_number s = Inr (PFloat (Finite x), r)"
  shows "parse_number (s @ rest) = Inr (PFloat (Finite x), r @ rest)"
proof -
  define negative where "negative = (case s of [] \<Rightarrow> False | c # r \<Rightarrow> c = 45)"
  define body where "body = (if negative then tl s else s)"
  have s: "s = (if negative then [45] else []) @ body"
    by (cases s) (auto simp: negative_def body_def)
  have pn: "parse_number s =
      (case body of
         [] \<Rightarrow> no_number s
       | d # r' \<Rightarrow>
           if d = 48 then number_result negative [48] r'
           else if is_digit d then
             number_result negative (takeWhile is_digit body) (dropWhile is_digit body)
           else no_number s)"
    unfolding parse_number_def negative_def body_def Let_def by (rule refl)
  from assms(2) pn obtain d r' where b: "body = d # r'" and dg: "is_digit d"
    by (cases body) (auto simp: no_number_not_finite is_digit_def split: if_splits)
  have neg': "(case s @ rest of [] \<Rightarrow> False | c # r \<Rightarrow> c = 45) = negative"
    using s b by (cases s) (auto simp: negative_def)
  have body': "(if negative then tl (s @ rest) else s @ rest) = body @ rest"
    using s b by (cases s) (auto simp: body_def)
  have pn': "parse_number (s @ rest) =
      (if d = 48 then number_result negative [48] (r' @ rest)
       else number_result negative (takeWhile is_digit (body @ rest))
              (dropWhile is_digit (body @ rest)))"
    using dg b by (simp add: parse_number_def neg' body' Let_def)
  show ?thesis
  proof (cases "d = 48")
    case True
    with assms(2) pn b have "number_result negative [48] r' = Inr (PFloat (Finite x), r)"
      by simp
    from number_result_append[OF assms(1) this] pn' True show ?thesis by simp
  next
    case False
    with assms(2) pn b dg
    have "number_result negative (takeWhile is_digit body) (dropWhile is_digit body)
          = Inr (PFloat (Finite x), r)"
      by simp
    from number_result_append[OF assms(1) this] pn' False digits_append[OF assms(1), of body]
    show ?thesis by simp
  qed
qed

lemma float_text_append:
  "float_text r \<Longrightarrow> delimited rest \<Longrightarrow> parse_number (r @ rest) = Inr (PFloat (Finite r), rest)"
  using parse_number_append[of rest r r "[]"] by (simp add: float_text_def)

lemma float_text_hd:
  assumes "float_text r"
  shows "r \<noteq> [] \<and> (hd r = 45 \<or> is_digit (hd r))"
proof (cases r)
  case Nil
  with assms show ?thesis
    by (simp add: float_text_def parse_number_def no_number_def lit_def)
next
  case (Cons c cs)
  with assms show ?thesis
    by (cases "c = 45")
       (auto simp: float_text_def parse_number_def no_number_not_finite is_digit_def Let_def
          split: if_splits)
qed

lemma takeWhile_digits_chars: "c \<in> set (takeWhile is_digit s) \<Longrightarrow> number_char c"
  using set_takeWhileD[of c is_digit s] by (simp add: number_char_def)

lemma lex_frac_chars: "c \<in> set (fst (lex_frac s)) \<Longrightarrow> number_char c"
  using takeWhile_digits_chars
  by (auto simp: lex_frac_def number_char_def split: list.splits if_splits)

lemma lex_exp_chars: "c \<in> set (fst (lex_exp s)) \<Longrightarrow> number_char c"
  using takeWhile_digits_chars
  by (auto simp: lex_exp_def number_char_def split: list.splits if_splits)

lemma number_result_chars:
  assumes "number_result negative ds rest = Inr (PFloat (Finite x), r)"
    "\<forall>c\<in>set ds. number_char c"
  shows "\<forall>c\<in>set x. number_char c"
proof -
  obtain frac r1 where fr: "lex_frac rest = (frac, r1)" by (cases "lex_frac rest")
  obtain ex r2 where ex: "lex_exp r1 = (ex, r2)" by (cases "lex_exp r1")
  from assms(1) fr ex have x: "x = (if negative then [45] else []) @ ds @ frac @ ex"
    by (auto simp: number_result_def split: if_splits)
  have "\<forall>c\<in>set frac. number_char c" using lex_frac_chars[of _ rest] fr by simp
  moreover have "\<forall>c\<in>set ex. number_char c" using lex_exp_chars[of _ r1] ex by simp
  ultimately show ?thesis using assms(2) x by (auto simp: number_char_def)
qed

lemma float_text_chars:
  assumes "float_text r"
  shows "\<forall>c\<in>set r. 33 \<le> c \<and> c \<le> 126"
proof -
  define negative where "negative = (case r of [] \<Rightarrow> False | c # r \<Rightarrow> c = 45)"
  define body where "body = (if negative then tl r else r)"
  from assms have pn: "parse_number r = Inr (PFloat (Finite r), [])"
    by (simp add: float_text_def)
  have pd: "parse_number r =
      (case body of
         [] \<Rightarrow> no_number r
       | d # r' \<Rightarrow>
           if d = 48 then number_result negative [48] r'
           else if is_digit d then
             number_result negative (takeWhile is_digit body) (dropWhile is_digit body)
           else no_number r)"
    unfolding parse_number_def negative_def body_def Let_def by (rule refl)
  from pn pd obtain d r' where b: "body = d # r'" and dg: "is_digit d"
    by (cases body) (auto simp: no_number_not_finite is_digit_def split: if_splits)
  have "\<forall>c\<in>set r. number_char c"
  proof (cases "d = 48")
    case True
    with pn pd b have "number_result negative [48] r' = Inr (PFloat (Finite r), [])" by simp
    then show ?thesis
      by (rule number_result_chars) (simp add: number_char_def is_digit_def)
  next
    case False
    with pn pd b dg
    have "number_result negative (takeWhile is_digit body) (dropWhile is_digit body)
          = Inr (PFloat (Finite r), [])"
      by simp
    then show ?thesis
      by (rule number_result_chars) (simp add: takeWhile_digits_chars)
  qed
  then show ?thesis by (auto simp: number_char_def is_digit_def)
qed

subsection \<open>Where a value starts\<close>

lemma value_start_not_ws: "value_start c \<Longrightarrow> \<not> json_ws c"
  by (auto simp: value_start_def json_ws_def is_digit_def)

lemma value_start_not_close: "value_start c \<Longrightarrow> c \<noteq> 93 \<and> c \<noteq> 125 \<and> c \<noteq> 44 \<and> c \<noteq> SP"
  by (auto simp: value_start_def is_digit_def)

lemma skip_ws_keep: "\<not> json_ws c \<Longrightarrow> skip_ws (c # s) = c # s"
  by (simp add: skip_ws_def)

lemma skip_ws_space: "skip_ws (SP # s) = skip_ws s"
  by (simp add: skip_ws_def json_ws_def)

lemma skip_ws_start: "t \<noteq> [] \<Longrightarrow> value_start (hd t) \<Longrightarrow> skip_ws (t @ r) = t @ r"
  by (cases t) (auto simp: skip_ws_keep value_start_not_ws)

lemma json_float_start:
  assumes "plain_float f"
  shows "json_float f \<noteq> [] \<and> value_start (hd (json_float f))"
proof (cases f)
  case (Finite r)
  with assms float_text_hd[of r] show ?thesis by (auto simp: value_start_def)
qed (insert assms, auto simp: value_start_def lit_def)

lemma json_encode_start:
  assumes "plain_value v" "json_encode room None lvl v = Some t"
  shows "t \<noteq> [] \<and> value_start (hd t)"
proof (cases v)
  case (PInt i)
  with assms have "t = decimal i" by (simp add: str_int_Some)
  with decimal_hd[of i] show ?thesis by (auto simp: value_start_def)
next
  case (PFloat f)
  with assms json_float_start[of f] show ?thesis by auto
next
  case (PList vs)
  with assms show ?thesis
    by (auto simp: value_start_def lit_def split: option.splits if_splits)
next
  case (PDict kvs)
  with assms show ?thesis
    by (auto simp: value_start_def lit_def split: option.splits if_splits)
qed (insert assms, auto simp: value_start_def lit_def json_string_def split: if_splits)

lemma json_items_start:
  assumes "plain_items vs" "vs \<noteq> []" "json_items room None lvl vs = Some t"
  shows "t \<noteq> [] \<and> value_start (hd t)"
proof -
  obtain v ws where vs: "vs = v # ws" using assms(2) by (cases vs) auto
  show ?thesis
  proof (cases ws)
    case Nil
    with vs assms show ?thesis using json_encode_start[of v room lvl t] by simp
  next
    case (Cons w ws')
    with vs assms obtain a b where a: "json_encode room None lvl v = Some a"
      and t: "t = a @ item_separator None lvl @ b"
      by (auto split: option.splits)
    from vs assms(1) a have "a \<noteq> [] \<and> value_start (hd a)"
      using json_encode_start[of v room lvl a] by simp
    with t show ?thesis by simp
  qed
qed

lemma json_members_start:
  assumes "kvs \<noteq> []" "json_members room None lvl kvs = Some t"
  shows "\<exists>t'. t = 34 # t'"
proof -
  obtain k v ws where kvs: "kvs = (k, v) # ws" using assms(1) by (cases kvs) auto
  with assms(2) show ?thesis
    by (cases ws) (auto simp: json_string_def split: option.splits)
qed

lemma scan_once_number:
  assumes "s \<noteq> []" "hd s = 45 \<or> is_digit (hd s)"
  shows "scan_once (Suc m) s = parse_number s"
proof -
  obtain c cs where s: "s = c # cs" using assms(1) by (cases s) auto
  with assms(2) have c: "c = 45 \<or> is_digit c" by simp
  then have "c \<noteq> 34" "c \<noteq> 123" "c \<noteq> 91" "c \<noteq> 110" "c \<noteq> 116" "c \<noteq> 102"
    by (auto simp: is_digit_def)
  then show ?thesis
    by (cases cs rule: rev_cases) (auto simp: s lit_def)
qed

lemma delimited_simps [simp]:
  "delimited []" "delimited (44 # r)" "delimited (93 # r)" "delimited (125 # r)"
  by (simp_all add: delimited_def)

lemma item_separator_None [simp]: "item_separator None lvl = [44, SP]"
  by (simp add: item_separator_def lit_def)

lemma newline_indent_None [simp]: "newline_indent None lvl = []"
  by (simp add: newline_indent_def)

lemma scan_once_string:
  "scan_once (Suc m) (json_string s @ rest) = Inr (PStr s, rest)"
  using scanstring_body[of s rest] by (simp add: json_string_def)

lemma scan_once_array:
  assumes "parse_array_items m (body @ 93 # rest) = Inr (vs, rest)"
    "body \<noteq> []" "value_start (hd body)"
  shows "scan_once (Suc m) (91 # body @ 93 # rest) = Inr (PList vs, rest)"
proof -
  obtain d r where b: "body = d # r" using assms(2) by (cases body) auto
  with assms(3) have d: "\<not> json_ws d" "d \<noteq> 93"
    using value_start_not_ws value_start_not_close by auto
  then have "skip_ws (body @ 93 # rest) = d # (r @ 93 # rest)"
    using b by (simp add: skip_ws_keep)
  with assms(1) b d show ?thesis by simp
qed

lemma scan_once_object:
  assumes "parse_object_pairs m (34 # body @ 125 # rest) = Inr (kvs, rest)"
    "distinct (map fst kvs)"
  shows "scan_once (Suc m) (123 # 34 # body @ 125 # rest) = Inr (PDict kvs, rest)"
proof -
  have "skip_ws (34 # body @ 125 # rest) = 34 # body @ 125 # rest"
    by (simp add: skip_ws_keep json_ws_def)
  with assms show ?thesis by (simp add: make_dict_distinct)
qed

lemma parse_array_items_last:
  assumes "scan_once m (a @ 93 # rest) = Inr (v, 93 # rest)"
  shows "parse_array_items (Suc m) (a @ 93 # rest) = Inr ([v], rest)"
  using assms by (simp add: skip_ws_keep json_ws_def)

lemma parse_array_items_more:
  assumes "scan_once m (a @ 44 # SP # b @ 93 # rest) = Inr (v, 44 # SP # b @ 93 # rest)"
    "parse_array_items m (b @ 93 # rest) = Inr (vs, rest)"
    "b \<noteq> []" "value_start (hd b)"
  shows "parse_array_items (Suc m) (a @ 44 # SP # b @ 93 # rest) = Inr (v # vs, rest)"
proof -
  have 1: "skip_ws (44 # SP # b @ 93 # rest) = 44 # SP # b @ 93 # rest"
    by (simp add: skip_ws_keep json_ws_def)
  have 2: "skip_ws (SP # b @ 93 # rest) = b @ 93 # rest"
    using skip_ws_start[OF assms(3,4)] by (simp add: skip_ws_space)
  from assms(1,2) 1 2 show ?thesis by simp
qed

lemma parse_object_pairs_last:
  assumes "scan_once m (a @ 125 # rest) = Inr (v, 125 # rest)"
    "a \<noteq> []" "value_start (hd a)"
  shows "parse_object_pairs (Suc m) (json_string k @ 58 # SP # a @ 125 # rest)
         = Inr ([(k, v)], rest)"
proof -
  have s: "scanstring (concat (map json_escape_char k) @ 34 # 58 # SP # a @ 125 # rest)
           = Inr (k, 58 # SP # a @ 125 # rest)"
    by (rule scanstring_body)
  have 1: "skip_ws (58 # SP # a @ 125 # rest) = 58 # SP # a @ 125 # rest"
    by (simp add: skip_ws_keep json_ws_def)
  have 2: "skip_ws (SP # a @ 125 # rest) = a @ 125 # rest"
    using skip_ws_start[OF assms(2,3)] by (simp add: skip_ws_space)
  have 3: "skip_ws (125 # rest) = 125 # rest" by (simp add: skip_ws_keep json_ws_def)
  from s 1 2 3 assms(1) show ?thesis by (simp add: json_string_def)
qed

lemma parse_object_pairs_more:
  assumes "scan_once m (a @ 44 # SP # 34 # b @ 125 # rest) = Inr (v, 44 # SP # 34 # b @ 125 # rest)"
    "parse_object_pairs m (34 # b @ 125 # rest) = Inr (kvs, rest)"
    "a \<noteq> []" "value_start (hd a)"
  shows "parse_object_pairs (Suc m) (json_string k @ 58 # SP # a @ 44 # SP # 34 # b @ 125 # rest)
         = Inr ((k, v) # kvs, rest)"
proof -
  let ?tail = "44 # SP # 34 # b @ 125 # rest"
  have s: "scanstring (concat (map json_escape_char k) @ 34 # 58 # SP # a @ ?tail)
           = Inr (k, 58 # SP # a @ ?tail)"
    by (rule scanstring_body)
  have 1: "skip_ws (58 # SP # a @ ?tail) = 58 # SP # a @ ?tail"
    by (simp add: skip_ws_keep json_ws_def)
  have 2: "skip_ws (SP # a @ ?tail) = a @ ?tail"
    using skip_ws_start[OF assms(3,4)] by (simp add: skip_ws_space)
  have 3: "skip_ws ?tail = ?tail" by (simp add: skip_ws_keep json_ws_def)
  have 4: "skip_ws (SP # 34 # b @ 125 # rest) = 34 # b @ 125 # rest"
    by (simp add: skip_ws_space skip_ws_keep json_ws_def)
  from s 1 2 3 4 assms(1,2) show ?thesis by (simp add: json_string_def)
qed

lemma scan_once_infinity:
  "scan_once (Suc m) (lit ''Infinity'' @ rest) = Inr (PFloat PosInf, rest)"
  "scan_once (Suc m) (lit ''-Infinity'' @ rest) = Inr (PFloat NegInf, rest)"
  by (simp_all add: lit_def parse_number_def no_number_def is_digit_def)

lemma scan_once_float:
  assumes "plain_float f" "delimited rest"
  shows "scan_once (Suc m) (json_float f @ rest) = Inr (PFloat f, rest)"
proof (cases f)
  case (Finite r)
  with assms(1) have ft: "float_text r" by simp
  have "scan_once (Suc m) (r @ rest) = parse_number (r @ rest)"
    using float_text_hd[OF ft] by (intro scan_once_number) auto
  with float_text_append[OF ft assms(2)] Finite show ?thesis
    by (simp del: scan_once.simps parse_array_items.simps parse_object_pairs.simps)
next
  case PosInf
  then show ?thesis
    by (simp add: scan_once_infinity
        del: scan_once.simps parse_array_items.simps parse_object_pairs.simps)
next
  case NegInf
  then show ?thesis
    by (simp add: scan_once_infinity
        del: scan_once.simps parse_array_items.simps parse_object_pairs.simps)
next
  case NaN
  with assms(1) show ?thesis by simp
qed

lemma loads_dumps:
  "ind = None \<Longrightarrow> plain_value v \<Longrightarrow> json_encode room ind lvl v = Some t \<Longrightarrow> length t \<le> n
     \<Longrightarrow> delimited rest \<Longrightarrow> scan_once n (t @ rest) = Inr (v, rest)"
  and "ind = None \<Longrightarrow> plain_items vs \<Longrightarrow> vs \<noteq> [] \<Longrightarrow> json_items room ind lvl vs = Some t
     \<Longrightarrow> length t < n \<Longrightarrow> parse_array_items n (t @ 93 # rest) = Inr (vs, rest)"
  and "ind = None \<Longrightarrow> plain_members kvs \<Longrightarrow> kvs \<noteq> [] \<Longrightarrow> json_members room ind lvl kvs = Some t
     \<Longrightarrow> length t < n \<Longrightarrow> parse_object_pairs n (t @ 125 # rest) = Inr (kvs, rest)"
proof (induction room ind lvl v and room ind lvl vs and room ind lvl kvs
    arbitrary: t n rest and t n rest and t n rest
    rule: json_encode_json_items_json_members.induct)
  case (1 room ind lvl)
  then obtain m where "n = Suc m" by (cases n) (auto simp: lit_def)
  with 1 show ?case by (auto simp: lit_def)
next
  case (2 room ind lvl b)
  then obtain m where "n = Suc m" by (cases n) (auto simp: lit_def split: if_splits)
  with 2 show ?case by (cases b) (auto simp: lit_def)
next
  case (3 room ind lvl i)
  then have t: "t = decimal i" and len: "length (str_nat (nat \<bar>i\<bar>)) \<le> int_max_str_digits"
    by (simp_all add: str_int_Some str_int_Some_length)
  with 3 decimal_hd[of i] obtain m where n: "n = Suc m" by (cases n) auto
  have "scan_once (Suc m) (decimal i @ rest) = parse_number (decimal i @ rest)"
    using decimal_hd[of i] by (intro scan_once_number) auto
  with t n parse_number_decimal[OF 3(5) len] show ?case
    by (simp del: scan_once.simps parse_array_items.simps parse_object_pairs.simps)
next
  case (4 room ind lvl f)
  then have t: "t = json_float f" and pf: "plain_float f" by simp_all
  with 4 json_float_start[OF pf] obtain m where n: "n = Suc m" by (cases n) auto
  from scan_once_float[OF pf 4(5), of m] t n show ?case
    by (simp del: scan_once.simps parse_array_items.simps parse_object_pairs.simps)
next
  case (5 room ind lvl s)
  then have t: "t = json_string s" by simp
  with 5 obtain m where n: "n = Suc m" by (cases n) (auto simp: json_string_def)
  with t show ?case
    by (simp add: scan_once_string
        del: scan_once.simps parse_array_items.simps parse_object_pairs.simps)
next
  case (6 room ind lvl b)
  then show ?case by simp
next
  case (7 room ind lvl)
  then show ?case by simp
next
  case (8 room ind lvl vs)
  from 8(4) have fit: "\<not> room \<le> lvl" by (auto split: if_splits)
  show ?case
  proof (cases "vs = []")
    case True
    with 8(4,5) fit obtain m where "n = Suc m" by (cases n) (auto simp: lit_def)
    with 8(4) fit True show ?thesis by (auto simp: lit_def skip_ws_keep json_ws_def)
  next
    case False
    with 8(2,4) fit obtain body where body: "json_items room None (Suc lvl) vs = Some body"
      and t: "t = 91 # body @ [93]"
      by (auto split: option.splits if_splits)
    from 8(5) t obtain m where n: "n = Suc m" and m: "length body < m" by (cases n) auto
    from 8(3) have pl: "plain_items vs" by simp
    have items: "parse_array_items m (body @ 93 # rest) = Inr (vs, rest)"
      using "8.IH"[OF fit False 8(2) pl False _ m] body 8(2) by simp
    have start: "body \<noteq> [] \<and> value_start (hd body)"
      using json_items_start[OF pl False body] .
    from scan_once_array[OF items] start t n show ?thesis
      by (simp del: scan_once.simps parse_array_items.simps parse_object_pairs.simps)
  qed
next
  case (9 room ind lvl vs)
  then show ?case by simp
next
  case (10 room ind lvl kvs)
  from 10(4) have fit: "\<not> room \<le> lvl" by (auto split: if_splits)
  show ?case
  proof (cases "kvs = []")
    case True
    with 10(4,5) fit obtain m where "n = Suc m" by (cases n) (auto simp: lit_def)
    with 10(4) fit True show ?thesis by (auto simp: lit_def skip_ws_keep json_ws_def)
  next
    case False
    with 10(2,4) fit obtain body where body: "json_members room None (Suc lvl) kvs = Some body"
      and t: "t = 123 # body @ [125]"
      by (auto split: option.splits if_splits)
    from 10(5) t obtain m where n: "n = Suc m" and m: "length body < m" by (cases n) auto
    from 10(3) have pl: "plain_members kvs" and di: "distinct (map fst kvs)"
      by simp_all
    have pairs: "parse_object_pairs m (body @ 125 # rest) = Inr (kvs, rest)"
      using "10.IH"[OF fit False 10(2) pl False _ m] body 10(2) by simp
    obtain b' where b': "body = 34 # b'"
      using json_members_start[OF False body] by auto
    from scan_once_object[of m b' rest kvs] pairs di b' t n show ?thesis
      by (simp del: scan_once.simps parse_array_items.simps parse_object_pairs.simps)
  qed
next
  case (11 room ind lvl)
  then show ?case by simp
next
  case (12 room ind lvl v)
  from 12(5,6) obtain m where n: "n = Suc m" and m: "length t \<le> m" by (cases n) auto
  from 12(3) have pv: "plain_value v" by simp
  from 12(5) have enc: "json_encode room ind lvl v = Some t" by simp
  have "scan_once m (t @ 93 # rest) = Inr (v, 93 # rest)"
    using "12.IH"[OF 12(2) pv enc m] by simp
  from parse_array_items_last[OF this] n show ?case
    by (simp del: scan_once.simps parse_array_items.simps parse_object_pairs.simps)
next
  case (13 room ind lvl v w vs)
  from 13(3,6) obtain a b where a: "json_encode room None lvl v = Some a"
    and b: "json_items room None lvl (w # vs) = Some b"
    and t: "t = a @ 44 # SP # b"
    by (auto split: option.splits)
  from 13(7) t obtain m where n: "n = Suc m" and ma: "length a \<le> m" and mb: "length b < m"
    by (cases n) auto
  from 13(4) have pv: "plain_value v" and pw: "plain_items (w # vs)" by simp_all
  have 1: "scan_once m (a @ 44 # SP # b @ 93 # rest) = Inr (v, 44 # SP # b @ 93 # rest)"
    using "13.IH"(1)[OF 13(3) pv _ ma, of "44 # SP # b @ 93 # rest"] a 13(3) by simp
  have 2: "parse_array_items m (b @ 93 # rest) = Inr (w # vs, rest)"
    using "13.IH"(2)[OF _ 13(3) pw _ _ mb] a b 13(3) by simp
  have 3: "b \<noteq> [] \<and> value_start (hd b)"
    using json_items_start[OF pw _ b] by simp
  from parse_array_items_more[OF 1 2] 3 t n show ?case
    by (simp del: scan_once.simps parse_array_items.simps parse_object_pairs.simps)
next
  case (14 room ind lvl)
  then show ?case by simp
next
  case (15 room ind lvl k v)
  from 15(2,5) obtain a where a: "json_encode room None lvl v = Some a"
    and t: "t = json_string k @ 58 # SP # a"
    by (auto simp: lit_def split: option.splits)
  from 15(6) t obtain m where n: "n = Suc m" and ma: "length a \<le> m" by (cases n) auto
  from 15(3) have pv: "plain_value v" by simp
  have 1: "scan_once m (a @ 125 # rest) = Inr (v, 125 # rest)"
    using "15.IH"[OF 15(2) pv _ ma, of "125 # rest"] a 15(2) by simp
  have 2: "a \<noteq> [] \<and> value_start (hd a)"
    using json_encode_start[OF pv a] .
  from parse_object_pairs_last[OF 1, of k] 2 t n show ?case
    by (simp del: scan_once.simps parse_array_items.simps parse_object_pairs.simps)
next
  case (16 room ind lvl k v mm kvs)
  from 16(3,6) obtain a b where a: "json_encode room None lvl v = Some a"
    and b: "json_members room None lvl (mm # kvs) = Some b"
    and t: "t = json_string k @ 58 # SP # a @ 44 # SP # b"
    by (auto simp: lit_def split: option.splits)
  from 16(7) t obtain m where n: "n = Suc m" and ma: "length a \<le> m" and mb: "length b < m"
    by (cases n) auto
  from 16(4) have pv: "plain_value v" and pm: "plain_members (mm # kvs)" by simp_all
  obtain b' where b': "b = 34 # b'"
    using json_members_start[OF _ b] by auto
  have 1: "scan_once m (a @ 44 # SP # 34 # b' @ 125 # rest)
           = Inr (v, 44 # SP # 34 # b' @ 125 # rest)"
    using "16.IH"(1)[OF 16(3) pv _ ma, of "44 # SP # 34 # b' @ 125 # rest"] a 16(3) by simp
  have 2: "parse_object_pairs m (34 # b' @ 125 # rest) = Inr (mm # kvs, rest)"
    using "16.IH"(2)[OF _ 16(3) pm _ _ mb] a b b' 16(3) by simp
  have 3: "a \<noteq> [] \<and> value_start (hd a)"
    using json_encode_start[OF pv a] .
  from parse_object_pairs_more[OF 1 2, of k] 3 t b' n show ?case
    by (simp del: scan_once.simps parse_array_items.simps parse_object_pairs.simps)
qed

subsection \<open>The compact text of a plain value passes the sanitizer unchanged\<close>

lemma adjacent_append:
  "adjacent P (a @ b) \<longleftrightarrow>
     adjacent P a \<or> adjacent P b \<or> (a \<noteq> [] \<and> b \<noteq> [] \<and> P (last a) \<and> P (hd b))"
proof (induction a)
  case Nil
  show ?case by simp
next
  case (Cons x xs)
  note ih = Cons.IH
  show ?case
  proof (cases xs)
    case Nil
    then show ?thesis by (cases b) auto
  next
    case (Cons y ys)
    with ih show ?thesis by auto
  qed
qed

lemma no_match_not_adjacent: "\<forall>c\<in>set t. \<not> P c \<Longrightarrow> \<not> adjacent P t"
  by (induction P t rule: adjacent.induct) auto

lemma tight_no_space:
  assumes "t \<noteq> []" "\<forall>c\<in>set t. 33 \<le> c \<and> c \<le> 126"
  shows "tight t"
proof -
  from assms(2) have ns: "\<forall>c\<in>set t. \<not> c = SP" by auto
  then have "\<not> adjacent (\<lambda>c. c = SP) t" by (rule no_match_not_adjacent)
  moreover from assms ns have "hd t \<noteq> SP" "last t \<noteq> SP" by auto
  moreover from assms(2) have "list_all (\<lambda>c. 32 \<le> c \<and> c \<le> 126) t"
    by (auto simp: list_all_iff)
  ultimately show ?thesis using assms(1) by (simp add: tight_def)
qed

lemma tight_join:
  assumes "tight a" "tight b" "33 \<le> c" "c \<le> 126"
  shows "tight (a @ c # SP # b)"
proof -
  from assms(1,2) have ne: "a \<noteq> []" "b \<noteq> []" by (simp_all add: tight_def)
  have "\<not> adjacent (\<lambda>c. c = SP) (c # SP # b)"
    using assms(2,3) ne by (cases b) (auto simp: tight_def)
  then have "\<not> adjacent (\<lambda>c. c = SP) (a @ c # SP # b)"
    using assms(1,3) by (auto simp: adjacent_append tight_def)
  with assms ne show ?thesis by (auto simp: tight_def)
qed

lemma tight_wrap:
  assumes "tight b" "33 \<le> x" "x \<le> 126" "33 \<le> y" "y \<le> 126"
  shows "tight (x # b @ [y])"
proof -
  from assms(1) have ne: "b \<noteq> []" by (simp add: tight_def)
  have "\<not> adjacent (\<lambda>c. c = SP) (b @ [y])"
    using assms(1,4) by (auto simp: adjacent_append tight_def)
  then have "\<not> adjacent (\<lambda>c. c = SP) (x # b @ [y])"
    using assms(2) ne by (cases b) auto
  with assms ne show ?thesis by (auto simp: tight_def)
qed

lemma hex_digit_range: "d < 16 \<Longrightarrow> 33 \<le> hex_digit d \<and> hex_digit d \<le> 126"
  by (auto simp: hex_digit_def)

lemma escape_range:
  assumes "c < 127" "x \<in> set (json_escape_char c)"
  shows "32 \<le> x \<and> x \<le> 126 \<and> (x = SP \<longrightarrow> c = SP)"
proof (cases "c < 32")
  case True
  then have "c div 16 < 16" by simp
  from hex_digit_range[OF this] hex_digit_range[of "c mod 16"] assms(2) True
  show ?thesis by (auto simp: json_escape_char_def split: if_splits)
next
  case False
  with assms show ?thesis by (auto simp: json_escape_char_def split: if_splits)
qed

lemma escape_nonempty: "json_escape_char c \<noteq> []"
  by (simp add: json_escape_char_def)

lemma escape_space: "json_escape_char SP = [SP]"
  by (simp add: json_escape_char_def)

lemma escape_body:
  assumes "list_all (\<lambda>c. c < 127) s" "\<not> adjacent (\<lambda>c. c = SP) s"
  shows "\<not> adjacent (\<lambda>c. c = SP) (concat (map json_escape_char s))
         \<and> list_all (\<lambda>c. 32 \<le> c \<and> c \<le> 126) (concat (map json_escape_char s))
         \<and> (concat (map json_escape_char s) \<noteq> [] \<and> hd (concat (map json_escape_char s)) = SP
              \<longrightarrow> s \<noteq> [] \<and> hd s = SP)"
  using assms
proof (induction s)
  case Nil
  show ?case by simp
next
  case (Cons c s)
  let ?E = "concat (map json_escape_char s)"
  from Cons.prems have c: "c < 127" and ls: "list_all (\<lambda>c. c < 127) s" by simp_all
  from Cons.prems(2) have na: "\<not> adjacent (\<lambda>c. c = SP) s" by (cases s) auto
  note ih = Cons.IH[OF ls na]
  have inner: "\<not> adjacent (\<lambda>x. x = SP) (json_escape_char c)"
  proof (cases "c = SP")
    case True
    then show ?thesis by (simp add: escape_space)
  next
    case False
    then have "\<forall>x\<in>set (json_escape_char c). \<not> x = SP"
      using escape_range[OF c] by blast
    then show ?thesis by (rule no_match_not_adjacent)
  qed
  have cross: "\<not> (last (json_escape_char c) = SP \<and> ?E \<noteq> [] \<and> hd ?E = SP)"
  proof
    assume a: "last (json_escape_char c) = SP \<and> ?E \<noteq> [] \<and> hd ?E = SP"
    then have "SP \<in> set (json_escape_char c)"
      using escape_nonempty[of c] last_in_set by metis
    then have "c = SP" using escape_range[OF c] by blast
    moreover from a ih have "s \<noteq> [] \<and> hd s = SP" by simp
    ultimately show False using Cons.prems(2) by (cases s) auto
  qed
  have 1: "\<not> adjacent (\<lambda>c. c = SP) (json_escape_char c @ ?E)"
    using inner ih cross by (auto simp: adjacent_append)
  have 2: "list_all (\<lambda>c. 32 \<le> c \<and> c \<le> 126) (json_escape_char c @ ?E)"
    using ih escape_range[OF c] by (auto simp: list_all_iff)
  have 3: "hd (json_escape_char c @ ?E) = SP \<longrightarrow> c = SP"
  proof
    assume "hd (json_escape_char c @ ?E) = SP"
    then have "hd (json_escape_char c) = SP" using escape_nonempty[of c] by simp
    then have "SP \<in> set (json_escape_char c)"
      using escape_nonempty[of c] hd_in_set by metis
    then show "c = SP" using escape_range[OF c] by blast
  qed
  from 1 2 3 show ?case by simp
qed

lemma tight_json_string: "plain_string s \<Longrightarrow> tight (json_string s)"
proof -
  assume "plain_string s"
  then have b: "\<not> adjacent (\<lambda>c. c = SP) (concat (map json_escape_char s))"
    "list_all (\<lambda>c. 32 \<le> c \<and> c \<le> 126) (concat (map json_escape_char s))"
    using escape_body[of s] by (simp_all add: plain_string_def)
  let ?E = "concat (map json_escape_char s)"
  have "\<not> adjacent (\<lambda>c. c = SP) (?E @ [34])"
    using b(1) by (auto simp: adjacent_append)
  then have "\<not> adjacent (\<lambda>c. c = SP) (34 # ?E @ [34])"
    by (cases "?E @ [34]") auto
  with b(2) show ?thesis by (simp add: tight_def json_string_def)
qed

lemma tight_decimal: "tight (decimal i)"
proof (rule tight_no_space)
  show "decimal i \<noteq> []" using decimal_hd by blast
  show "\<forall>c\<in>set (decimal i). 33 \<le> c \<and> c \<le> 126"
  proof
    fix c assume "c \<in> set (decimal i)"
    then have "c = 45 \<or> is_digit c"
      using str_nat_digits by (auto simp: decimal_def split: if_splits)
    then show "33 \<le> c \<and> c \<le> 126" by (auto simp: is_digit_def)
  qed
qed

lemma tight_json_float: "plain_float f \<Longrightarrow> tight (json_float f)"
proof (cases f)
  case (Finite r)
  assume "plain_float f"
  with Finite have ft: "float_text r" by simp
  from float_text_hd[OF ft] float_text_chars[OF ft] have "tight r"
    by (intro tight_no_space) auto
  with Finite show ?thesis by simp
qed (simp_all add: tight_def lit_def)

lemma tight_encode:
  "ind = None \<Longrightarrow> plain_value v \<Longrightarrow> json_encode room ind lvl v = Some t \<Longrightarrow> tight t"
  and "ind = None \<Longrightarrow> plain_items vs \<Longrightarrow> vs \<noteq> [] \<Longrightarrow> json_items room ind lvl vs = Some t
     \<Longrightarrow> tight t"
  and "ind = None \<Longrightarrow> plain_members kvs \<Longrightarrow> kvs \<noteq> [] \<Longrightarrow> json_members room ind lvl kvs = Some t
     \<Longrightarrow> tight t"
proof (induction room ind lvl v and room ind lvl vs and room ind lvl kvs
    arbitrary: t and t and t
    rule: json_encode_json_items_json_members.induct)
  case (1 room ind lvl)
  then show ?case by (auto simp: tight_def lit_def)
next
  case (2 room ind lvl b)
  then show ?case by (cases b) (auto simp: tight_def lit_def)
next
  case (3 room ind lvl i)
  then show ?case by (auto simp: tight_decimal dest: str_int_Some)
next
  case (4 room ind lvl f)
  then show ?case by (auto simp: tight_json_float)
next
  case (5 room ind lvl s)
  then show ?case by (auto simp: tight_json_string)
next
  case (8 room ind lvl vs)
  from 8(4) have fit: "\<not> room \<le> lvl" by (auto split: if_splits)
  show ?case
  proof (cases "vs = []")
    case True
    with 8(4) fit show ?thesis by (auto simp: tight_def lit_def)
  next
    case False
    with 8(2,4) fit obtain body where body: "json_items room None (Suc lvl) vs = Some body"
      and t: "t = 91 # body @ [93]"
      by (auto split: option.splits if_splits)
    from 8(3) have pl: "plain_items vs" by simp
    have "tight body" using "8.IH"[OF fit False 8(2) pl False] body 8(2) by simp
    from tight_wrap[OF this, of 91 93] t show ?thesis by simp
  qed
next
  case (10 room ind lvl kvs)
  from 10(4) have fit: "\<not> room \<le> lvl" by (auto split: if_splits)
  show ?case
  proof (cases "kvs = []")
    case True
    with 10(4) fit show ?thesis by (auto simp: tight_def lit_def)
  next
    case False
    with 10(2,4) fit obtain body where body: "json_members room None (Suc lvl) kvs = Some body"
      and t: "t = 123 # body @ [125]"
      by (auto split: option.splits if_splits)
    from 10(3) have pl: "plain_members kvs" by simp
    have "tight body" using "10.IH"[OF fit False 10(2) pl False] body 10(2) by simp
    from tight_wrap[OF this, of 123 125] t show ?thesis by simp
  qed
next
  case (12 room ind lvl v)
  then show ?case by simp
next
  case (13 room ind lvl v w vs)
  from 13(3,6) obtain a b where a: "json_encode room None lvl v = Some a"
    and b: "json_items room None lvl (w # vs) = Some b"
    and t: "t = a @ 44 # SP # b"
    by (auto split: option.splits)
  from 13(4) have pv: "plain_value v" and pw: "plain_items (w # vs)" by simp_all
  have ta: "tight a" using "13.IH"(1)[OF 13(3) pv] a 13(3) by simp
  have tb: "tight b" using "13.IH"(2)[OF _ 13(3) pw] a b 13(3) by simp
  from tight_join[OF ta tb, of 44] t show ?case by simp
next
  case (15 room ind lvl k v)
  from 15(2,5) obtain a where a: "json_encode room None lvl v = Some a"
    and t: "t = json_string k @ 58 # SP # a"
    by (auto simp: lit_def split: option.splits)
  from 15(3) have pv: "plain_value v" and pk: "plain_string k" by simp_all
  have ta: "tight a" using "15.IH"[OF 15(2) pv] a 15(2) by simp
  from tight_join[OF tight_json_string[OF pk] ta, of 58] t show ?case by simp
next
  case (16 room ind lvl k v mm kvs)
  from 16(3,6) obtain a b where a: "json_encode room None lvl v = Some a"
    and b: "json_members room None lvl (mm # kvs) = Some b"
    and t: "t = json_string k @ 58 # SP # a @ 44 # SP # b"
    by (auto simp: lit_def split: option.splits)
  from 16(4) have pv: "plain_value v" and pm: "plain_members (mm # kvs)"
    and pk: "plain_string k" by simp_all
  have ta: "tight a" using "16.IH"(1)[OF 16(3) pv] a 16(3) by simp
  have tb: "tight b" using "16.IH"(2)[OF _ 16(3) pm] a b 16(3) by simp
  have "tight (a @ 44 # SP # b)" using tight_join[OF ta tb, of 44] by simp
  from tight_join[OF tight_json_string[OF pk] this, of 58] t show ?case by simp
qed simp_all

text \<open>
  The encoder accepts a plain value that is within the limits.
\<close>

lemma encode_within_limits:
  "plain_value v \<Longrightarrow> within_limits (room - lvl) v \<Longrightarrow> \<exists>t. json_encode room ind lvl v = Some t"
  and "plain_items vs \<Longrightarrow> within_limits_items (room - lvl) vs
     \<Longrightarrow> \<exists>t. json_items room ind lvl vs = Some t"
  and "plain_members kvs \<Longrightarrow> within_limits_members (room - lvl) kvs
     \<Longrightarrow> \<exists>t. json_members room ind lvl kvs = Some t"
proof (induction room ind lvl v and room ind lvl vs and room ind lvl kvs
    rule: json_encode_json_items_json_members.induct)
  case (3 room ind lvl i)
  then show ?case by (simp add: str_int_within)
next
  case (8 room ind lvl vs)
  from 8(3) have fit: "\<not> room \<le> lvl" and w: "within_limits_items (room - Suc lvl) vs"
    by auto
  show ?case
  proof (cases "vs = []")
    case True
    with fit show ?thesis by simp
  next
    case False
    from 8(2) have "plain_items vs" by simp
    from "8.IH"[OF fit False this w] fit False show ?thesis by auto
  qed
next
  case (10 room ind lvl kvs)
  from 10(3) have fit: "\<not> room \<le> lvl" and w: "within_limits_members (room - Suc lvl) kvs"
    by auto
  show ?case
  proof (cases "kvs = []")
    case True
    with fit show ?thesis by simp
  next
    case False
    from 10(2) have "plain_members kvs" by simp
    from "10.IH"[OF fit False this w] fit False show ?thesis by auto
  qed
next
  case (13 room ind lvl v w vs)
  from 13(3,4) have pv: "plain_value v" "within_limits (room - lvl) v"
    and pw: "plain_items (w # vs)" "within_limits_items (room - lvl) (w # vs)"
    by simp_all
  from "13.IH"(1)[OF pv] obtain a where a: "json_encode room ind lvl v = Some a" by blast
  from "13.IH"(2)[OF a pw] obtain b where b: "json_items room ind lvl (w # vs) = Some b"
    by blast
  from a b show ?case by simp
next
  case (15 room ind lvl k v)
  then show ?case by auto
next
  case (16 room ind lvl k v mm kvs)
  from 16(3,4) have pv: "plain_value v" "within_limits (room - lvl) v"
    and pm: "plain_members (mm # kvs)" "within_limits_members (room - lvl) (mm # kvs)"
    by simp_all
  from "16.IH"(1)[OF pv] obtain a where a: "json_encode room ind lvl v = Some a" by blast
  from "16.IH"(2)[OF a pm] obtain b where b: "json_members room ind lvl (mm # kvs) = Some b"
    by blast
  from a b show ?case by simp
qed simp_all

lemma collapse_newlines_id: "LF \<notin> set t \<Longrightarrow> collapse_newlines t = t"
  by (induction t) auto

lemma collapse_blanks_id:
  "TAB \<notin> set t \<Longrightarrow> \<not> adjacent (\<lambda>c. c = SP) t \<Longrightarrow> collapse_blanks t = t"
proof (induction t rule: collapse_blanks.induct)
  case 1
  show ?case by simp
next
  case (2 c cs)
  from 2(4) have na: "\<not> adjacent (\<lambda>c. c = SP) cs" by (cases cs) auto
  from 2(3) have nt: "TAB \<notin> set cs" "c \<noteq> TAB" by auto
  show ?case
  proof (cases "blank c")
    case True
    with nt have c: "c = SP" by (simp add: blank_def)
    have dw: "dropWhile blank cs = cs"
    proof (cases cs)
      case Nil
      then show ?thesis by simp
    next
      case (Cons d ds)
      with 2(4) c have "d \<noteq> SP" by simp
      moreover from Cons nt have "d \<noteq> TAB" by auto
      ultimately show ?thesis using Cons by (simp add: blank_def)
    qed
    from 2(1)[OF True] dw nt(1) na have "collapse_blanks cs = cs" by simp
    with True c dw show ?thesis by simp
  next
    case False
    from 2(2)[OF False nt(1) na] False show ?thesis by simp
  qed
qed

lemma dropWhile_keep: "\<not> P (hd xs) \<Longrightarrow> xs \<noteq> [] \<Longrightarrow> dropWhile P xs = xs"
  by (cases xs) auto

lemma tight_py_strip: "tight t \<Longrightarrow> py_strip t = t"
proof -
  assume t: "tight t"
  then have ne: "t \<noteq> []" by (simp add: tight_def)
  from t have r: "\<forall>c\<in>set t. 32 \<le> c \<and> c \<le> 126" by (simp add: tight_def list_all_iff)
  have sp: "\<And>c. c \<in> set t \<Longrightarrow> is_space c \<Longrightarrow> c = SP"
    using r by (auto simp: is_space_def)
  from t ne have "hd t \<in> set t" "hd t \<noteq> SP" by (auto simp: tight_def)
  then have h: "\<not> is_space (hd t)" using sp by blast
  from t ne have "last t \<in> set t" "last t \<noteq> SP" by (auto simp: tight_def)
  then have l: "\<not> is_space (last t)" using sp by blast
  have 1: "dropWhile is_space t = t" using h ne by (rule dropWhile_keep)
  have rne: "rev t \<noteq> []" using ne by simp
  have "\<not> is_space (hd (rev t))" unfolding hd_rev by (rule l)
  then have 2: "dropWhile is_space (rev t) = rev t" using rne by (rule dropWhile_keep)
  show ?thesis by (simp only: py_strip_def 1 2 rev_rev_ident)
qed

lemma tight_clean_text: "tight t \<Longrightarrow> clean_text True t = t"
proof -
  assume t: "tight t"
  then have r: "\<forall>c\<in>set t. 32 \<le> c \<and> c \<le> 126" by (simp add: tight_def list_all_iff)
  then have p: "\<forall>c\<in>set t. printable c" by (auto simp: printable_def)
  then have 1: "strip_unprintable t = t" by (simp add: strip_unprintable_def)
  from r have ncr: "CR \<notin> set t" and nlf: "LF \<notin> set t" and ntab: "TAB \<notin> set t" by auto
  have 2: "replace_cr (replace_crlf t) = t"
    using ncr by (simp add: replace_crlf_no_cr replace_cr_no_cr)
  have 3: "collapse_newlines t = t" using nlf by (rule collapse_newlines_id)
  have 4: "collapse_blanks t = t"
    using ntab t by (intro collapse_blanks_id) (auto simp: tight_def)
  show ?thesis by (simp add: clean_text_def 1 2 3 4 tight_py_strip[OF t])
qed

lemma sanitize_plain_dict:
  assumes "plain_value (PDict kvs)" "json_dumps room None (PDict kvs) = Some t"
  shows "sanitize_content room (PDict kvs) True = Inr t \<and> json_loads t = Inr (PDict kvs)"
proof -
  from assms(2) have e: "json_encode room None 0 (PDict kvs) = Some t"
    by (simp add: json_dumps_def)
  from tight_encode(1)[OF refl assms(1) e] have t: "tight t" .
  then have ne: "t \<noteq> []" by (simp add: tight_def)
  have s: "sanitize_content room (PDict kvs) True = Inr t"
    using assms(2) ne by (simp add: sanitize_content_def tight_clean_text[OF t]
        tight_py_strip[OF t])
  from json_encode_start[OF assms(1) e] have "skip_ws (t @ []) = t @ []"
    by (intro skip_ws_start) auto
  then have sk: "skip_ws t = t" by simp
  have "scan_once (Suc (length t)) (t @ []) = Inr (PDict kvs, [])"
    using loads_dumps(1)[OF refl assms(1) e, of "Suc (length t)" "[]"] by simp
  moreover have "skip_ws [] = []" by (simp add: skip_ws_def)
  ultimately have l: "json_loads t = Inr (PDict kvs)"
    by (simp add: json_loads_def sk
        del: scan_once.simps parse_array_items.simps parse_object_pairs.simps)
  from s l show ?thesis by simp
qed

lemma sanitize_dict_encoded:
  "sanitize_content room (PDict kvs) True = Inr s \<Longrightarrow> \<exists>t. json_dumps room None (PDict kvs) = Some t"
  by (auto simp: sanitize_content_def split: option.splits)

lemma encode_known_codec: "encode enc s = Inr data \<Longrightarrow> enc \<noteq> UnknownCodec"
  by (cases enc) auto


lemma under_file_root_child: "\<not> under_file [[] \<mapsto> Directory True True] [x]"
  using under_file_snoc[of "[[] \<mapsto> Directory True True]" "[]" x]
  by (simp add: path_is_file_def)

lemma nearest_ancestor_root_child:
  "os_access_W [[] \<mapsto> Directory True True] (nearest_ancestor [[] \<mapsto> Directory True True] [x])"
  by (simp add: nearest_ancestor_def ancestors_1 path_exists_def os_access_W_def)

lemma float_text_example: "float_text (lit ''1.75'')"
  by (simp add: float_text_def parse_number_def number_result_def lex_frac_def lex_exp_def
      is_digit_def lit_def)


lemma sanitize_double_space:
  "sanitize_content 1000 (PDict [(lit ''a'', PStr (lit ''x  y''))]) True
   = Inr [123, 34, 97, 34, 58, 32, 34, 120, 32, 121, 34, 125]"
  by (simp add: sanitize_content_def json_dumps_def json_string_def json_escape_char_def
      clean_text_def lit_def strip_unprintable_def printable_def replace_cr_def blank_def
      py_strip_def is_space_def)

lemma loads_single_space:
  "json_loads [123, 34, 97, 34, 58, 32, 34, 120, 32, 121, 34, 125]
   = Inr (PDict [(lit ''a'', PStr (lit ''x y''))])"
  by (simp add: json_loads_def skip_ws_def json_ws_def push_def make_dict_def dict_set_def
      lit_def)

lemma sanitize_non_ascii:
  "sanitize_content 1000 (PDict [(lit ''a'', PStr [233])]) True
   = Inr [123, 34, 97, 34, 58, 32, 34, 34, 125]"
  by (simp add: sanitize_content_def json_dumps_def json_string_def json_escape_char_def
      clean_text_def lit_def strip_unprintable_def printable_def replace_cr_def blank_def
      py_strip_def is_space_def)

lemma loads_empty_string:
  "json_loads [123, 34, 97, 34, 58, 32, 34, 34, 125] = Inr (PDict [(lit ''a'', PStr [])])"
  by (simp add: json_loads_def skip_ws_def json_ws_def push_def make_dict_def dict_set_def
      lit_def)

lemma sanitize_tuple:
  "sanitize_content 1000 (PDict [(lit ''a'', PTuple [PInt 1, PInt 2])]) True
   = Inr [123, 34, 97, 34, 58, 32, 91, 49, 44, 32, 50, 93, 125]"
  by (simp add: sanitize_content_def json_dumps_def json_string_def json_escape_char_def
      clean_text_def lit_def strip_unprintable_def printable_def replace_cr_def blank_def
      py_strip_def is_space_def str_int_def decimal_def int_max_str_digits_def str_nat.simps)

lemma loads_list:
  "json_loads [123, 34, 97, 34, 58, 32, 91, 49, 44, 32, 50, 93, 125]
   = Inr (PDict [(lit ''a'', PList [PInt 1, PInt 2])])"
  by (simp add: json_loads_def skip_ws_def json_ws_def push_def make_dict_def dict_set_def
      lit_def parse_number_def number_result_def lex_frac_def lex_exp_def is_digit_def
      digits_value_def int_max_str_digits_def)

lemma create_file_at_root:
  assumes "sanitize_content 1000 d True = Inr t" "\<forall>x\<in>set t. printable x"
  shows "fst (create_file 1000 [[] \<mapsto> Directory True True] [''d.json''] d True True Utf8)
           = Inr [''d.json'']
         \<and> read_file
             (snd (create_file 1000 [[] \<mapsto> Directory True True] [''d.json''] d True True Utf8))
             [''d.json''] False Utf8
           = Inr (Text t)"
proof -
  let ?fs = "[[] \<mapsto> Directory True True]"
  let ?p = "[''d.json'']"
  have h2: "\<not> path_exists ?fs ?p" by (simp add: path_exists_def)
  have h5: "Utf8 \<noteq> UnknownCodec" by simp
  have c: "create_file 1000 ?fs ?p d True True Utf8
           = (Inr ?p, (with_directories ?fs (parent ?p))(?p \<mapsto> RegularFile (map char_of t) True True))"
    using h2 well_formed_root_only under_file_root_child nearest_ancestor_root_child assms(1) h5
    by (rule create_file_writes)
  have r: "read_file ((with_directories ?fs (parent ?p))(?p \<mapsto> RegularFile (map char_of t) True True))
                  ?p False Utf8 = Inr (Text t)"
    using assms(2) h5 by (intro read_file_text[where w = True]) auto
  from c r show ?thesis by simp
qed


end
